theory Spec2Isabelle
  imports Main "HOL-Library.Word"
begin

section \<open>Go strings\<close>

text \<open>
  A Go string holds UTF-8 bytes; the regular expressions, \<^verbatim>\<open>[]rune(s)\<close> and the
  \<^verbatim>\<open>strings\<close> functions of the program read it rune by rune. Texts reach the
  program decoded from JSON and are valid UTF-8, so a string is modelled as the list of
  its runes (Go's \<^verbatim>\<open>rune\<close> is an integer type; the values are Unicode code points).
\<close>

type_synonym rune = int
type_synonym gostring = "rune list"

subsection \<open>Runes, lengths and the strings package\<close>

text \<open>
  \<open>str\<close> turns an ASCII literal into runes. \<open>len\<close> is Go's \<^verbatim>\<open>len(s)\<close>: the number of
  bytes of the UTF-8 encoding. \<^verbatim>\<open>unicode.IsSpace\<close> is the White_Space property;
  \<^verbatim>\<open>unicode.IsUpper\<close> is decided by the Latin-1 properties for runes up to U+00FF and
  by the Unicode upper-case range table above: that table (part of the standard library,
  not of the repository) is the parameter \<open>upper_table\<close>.
\<close>

definition str :: "string \<Rightarrow> gostring" where
  "str s = map of_char s"

definition utf8_len :: "rune \<Rightarrow> nat" where
  "utf8_len r = (if r < 128 then 1 else if r < 2048 then 2 else if r < 65536 then 3 else 4)"

definition len :: "gostring \<Rightarrow> nat" where
  "len s = sum_list (map utf8_len s)"

definition unicode_IsSpace :: "rune \<Rightarrow> bool" where
  "unicode_IsSpace r \<longleftrightarrow>
     r = 9 \<or> r = 10 \<or> r = 11 \<or> r = 12 \<or> r = 13 \<or> r = 32 \<or> r = 133 \<or> r = 160
     \<or> r = 5760 \<or> (8192 \<le> r \<and> r \<le> 8202) \<or> r = 8232 \<or> r = 8233 \<or> r = 8239
     \<or> r = 8287 \<or> r = 12288"

definition unicode_IsUpper :: "(rune \<Rightarrow> bool) \<Rightarrow> rune \<Rightarrow> bool" where
  "unicode_IsUpper upper_table r =
     (if r \<le> 255
      then (65 \<le> r \<and> r \<le> 90) \<or> (192 \<le> r \<and> r \<le> 214) \<or> (216 \<le> r \<and> r \<le> 222)
      else upper_table r)"

definition TrimSpace :: "gostring \<Rightarrow> gostring" where
  "TrimSpace s = rev (dropWhile unicode_IsSpace (rev (dropWhile unicode_IsSpace s)))"

definition HasPrefix :: "gostring \<Rightarrow> gostring \<Rightarrow> bool" where
  "HasPrefix s pre \<longleftrightarrow> take (length pre) s = pre"

definition HasSuffix :: "gostring \<Rightarrow> gostring \<Rightarrow> bool" where
  "HasSuffix s suf \<longleftrightarrow> length suf \<le> length s \<and> drop (length s - length suf) s = suf"

definition TrimPrefix :: "gostring \<Rightarrow> gostring \<Rightarrow> gostring" where
  "TrimPrefix s pre = (if HasPrefix s pre then drop (length pre) s else s)"

definition TrimSuffix :: "gostring \<Rightarrow> gostring \<Rightarrow> gostring" where
  "TrimSuffix s suf = (if HasSuffix s suf then take (length s - length suf) s else s)"

fun Contains :: "gostring \<Rightarrow> gostring \<Rightarrow> bool" where
  "Contains [] sub = (sub = [])"
| "Contains (x # xs) sub = (HasPrefix (x # xs) sub \<or> Contains xs sub)"

function replace_scan :: "gostring \<Rightarrow> gostring \<Rightarrow> gostring \<Rightarrow> gostring" where
  "replace_scan old new [] = []"
| "replace_scan old new (x # xs) =
     (if old \<noteq> [] \<and> HasPrefix (x # xs) old
      then new @ replace_scan old new (drop (length old) (x # xs))
      else x # replace_scan old new xs)"
  by pat_completeness auto
termination
  by (relation "measure (\<lambda>(old, new, s). length s)") auto

definition ReplaceAll :: "gostring \<Rightarrow> gostring \<Rightarrow> gostring \<Rightarrow> gostring" where
  "ReplaceAll s old new =
     (if old = [] then new @ concat (map (\<lambda>r. r # new) s) else replace_scan old new s)"

subsection \<open>Regular expressions\<close>

text \<open>
  The patterns of the program, as syntax trees, and a backtracking matcher with Go's
  leftmost-first semantics: alternatives are tried in order, \<open>Star\<close> prefers one more
  iteration, \<open>StarLazy\<close> prefers to stop. \<open>rx r prev rest c k\<close> matches \<open>r\<close> at the
  position whose preceding rune is \<open>prev\<close> and whose remaining input is \<open>rest\<close>, with
  the submatches \<open>c\<close> recorded so far, and hands the position after the match to the
  continuation \<open>k\<close>. \<^verbatim>\<open>\s\<close>, \<^verbatim>\<open>\w\<close> and \<^verbatim>\<open>\b\<close> are ASCII-only, as in Go.
  The tests on the length of the remaining input in \<open>Seq\<close> and \<open>Star\<close> always
  succeed for \<open>Seq\<close> and fail for \<open>Star\<close> only after an iteration that consumed
  nothing; they make the recursion well-founded.

  \<open>replace_from\<close>, \<open>find_from\<close> and \<open>split_from\<close> scan for the successive non-overlapping
  matches, as \<^verbatim>\<open>ReplaceAllString\<close>, \<^verbatim>\<open>FindAllString\<close> and \<^verbatim>\<open>Split\<close> do.
  Every pattern of the program consumes at least one rune; a match of width zero is
  passed over.
\<close>

datatype regex =
    Eps
  | Cls "rune \<Rightarrow> bool"
  | Seq regex regex
  | Alt regex regex
  | Star regex
  | StarLazy regex
  | Group nat regex
  | WordBoundary
  | EndText

type_synonym caps = "(nat \<times> gostring) list"

definition is_word_rune :: "rune \<Rightarrow> bool" where
  "is_word_rune r \<longleftrightarrow>
     (48 \<le> r \<and> r \<le> 57) \<or> (65 \<le> r \<and> r \<le> 90) \<or> r = 95 \<or> (97 \<le> r \<and> r \<le> 122)"

definition is_re_space :: "rune \<Rightarrow> bool" where
  "is_re_space r \<longleftrightarrow> r = 9 \<or> r = 10 \<or> r = 12 \<or> r = 13 \<or> r = 32"

definition at_word_boundary :: "rune option \<Rightarrow> gostring \<Rightarrow> bool" where
  "at_word_boundary prev rest =
     ((case prev of None \<Rightarrow> False | Some p \<Rightarrow> is_word_rune p)
        \<noteq> (case rest of [] \<Rightarrow> False | x # xs \<Rightarrow> is_word_rune x))"

function rx :: "regex \<Rightarrow> rune option \<Rightarrow> gostring \<Rightarrow> caps
                 \<Rightarrow> (rune option \<Rightarrow> gostring \<Rightarrow> caps \<Rightarrow> (gostring \<times> caps) option)
                 \<Rightarrow> (gostring \<times> caps) option" where
  "rx Eps prev rest c k = k prev rest c"
| "rx (Cls P) prev rest c k =
     (case rest of [] \<Rightarrow> None | x # xs \<Rightarrow> if P x then k (Some x) xs c else None)"
| "rx (Seq a b) prev rest c k =
     rx a prev rest c
       (\<lambda>prev' rest' c'. if length rest' \<le> length rest then rx b prev' rest' c' k else None)"
| "rx (Alt a b) prev rest c k =
     (case rx a prev rest c k of Some m \<Rightarrow> Some m | None \<Rightarrow> rx b prev rest c k)"
| "rx (Star a) prev rest c k =
     (case rx a prev rest c
             (\<lambda>prev' rest' c'.
                if length rest' < length rest then rx (Star a) prev' rest' c' k else None) of
        Some m \<Rightarrow> Some m
      | None \<Rightarrow> k prev rest c)"
| "rx (StarLazy a) prev rest c k =
     (case k prev rest c of
        Some m \<Rightarrow> Some m
      | None \<Rightarrow>
          rx a prev rest c
            (\<lambda>prev' rest' c'.
               if length rest' < length rest then rx (StarLazy a) prev' rest' c' k else None))"
| "rx (Group n a) prev rest c k =
     rx a prev rest c
       (\<lambda>prev' rest' c'. k prev' rest' ((n, take (length rest - length rest') rest) # c'))"
| "rx WordBoundary prev rest c k = (if at_word_boundary prev rest then k prev rest c else None)"
| "rx EndText prev rest c k = (if rest = [] then k prev rest c else None)"
  by pat_completeness auto
termination
  by (relation "measures [\<lambda>(r, prev, rest, c, k). length rest, \<lambda>(r, prev, rest, c, k). size r]")
     auto

definition rx_match :: "regex \<Rightarrow> rune option \<Rightarrow> gostring \<Rightarrow> (gostring \<times> caps) option" where
  "rx_match r prev rest = rx r prev rest [] (\<lambda>prev' rest' c'. Some (rest', c'))"

definition submatch :: "caps \<Rightarrow> nat \<Rightarrow> gostring" where
  "submatch c n = (case map_of c n of None \<Rightarrow> [] | Some s \<Rightarrow> s)"

function replace_from ::
  "regex \<Rightarrow> (gostring \<Rightarrow> caps \<Rightarrow> gostring) \<Rightarrow> rune option \<Rightarrow> gostring \<Rightarrow> gostring" where
  "replace_from r repl prev [] = []"
| "replace_from r repl prev (x # xs) =
     (case rx_match r prev (x # xs) of
        None \<Rightarrow> x # replace_from r repl (Some x) xs
      | Some (rest', c) \<Rightarrow>
          if length rest' < length (x # xs)
          then (let m = take (length (x # xs) - length rest') (x # xs)
                in repl m c @ replace_from r repl (Some (last m)) rest')
          else x # replace_from r repl (Some x) xs)"
  by pat_completeness auto
termination
  by (relation "measure (\<lambda>(r, repl, prev, s). length s)") auto

definition ReplaceAllStringFunc :: "regex \<Rightarrow> gostring \<Rightarrow> (gostring \<Rightarrow> gostring) \<Rightarrow> gostring" where
  "ReplaceAllStringFunc r src f = replace_from r (\<lambda>m c. f m) None src"

definition ReplaceAllString :: "regex \<Rightarrow> gostring \<Rightarrow> (caps \<Rightarrow> gostring) \<Rightarrow> gostring" where
  "ReplaceAllString r src template = replace_from r (\<lambda>m c. template c) None src"

function find_from :: "regex \<Rightarrow> rune option \<Rightarrow> gostring \<Rightarrow> gostring list" where
  "find_from r prev [] = []"
| "find_from r prev (x # xs) =
     (case rx_match r prev (x # xs) of
        None \<Rightarrow> find_from r (Some x) xs
      | Some (rest', c) \<Rightarrow>
          if length rest' < length (x # xs)
          then (let m = take (length (x # xs) - length rest') (x # xs)
                in m # find_from r (Some (last m)) rest')
          else find_from r (Some x) xs)"
  by pat_completeness auto
termination
  by (relation "measure (\<lambda>(r, prev, s). length s)") auto

definition FindAllString :: "regex \<Rightarrow> gostring \<Rightarrow> gostring list" where
  "FindAllString r s = find_from r None s"

definition MatchString :: "regex \<Rightarrow> gostring \<Rightarrow> bool" where
  "MatchString r s \<longleftrightarrow> FindAllString r s \<noteq> []"

function split_from :: "regex \<Rightarrow> rune option \<Rightarrow> gostring \<Rightarrow> gostring \<Rightarrow> gostring list" where
  "split_from r prev piece [] = [piece]"
| "split_from r prev piece (x # xs) =
     (case rx_match r prev (x # xs) of
        None \<Rightarrow> split_from r (Some x) (piece @ [x]) xs
      | Some (rest', c) \<Rightarrow>
          if length rest' < length (x # xs)
          then piece # split_from r (Some (last (take (length (x # xs) - length rest') (x # xs)))) [] rest'
          else split_from r (Some x) (piece @ [x]) xs)"
  by pat_completeness auto
termination
  by (relation "measure (\<lambda>(r, prev, piece, s). length s)") auto

definition Split :: "regex \<Rightarrow> gostring \<Rightarrow> gostring list" where
  "Split r s = split_from r None [] s"

text \<open>Building blocks of the patterns.\<close>

fun seqs :: "regex list \<Rightarrow> regex" where
  "seqs [] = Eps"
| "seqs [r] = r"
| "seqs (r # rs) = Seq r (seqs rs)"

fun alts :: "regex list \<Rightarrow> regex" where
  "alts [] = Cls (\<lambda>r. False)"
| "alts [r] = r"
| "alts (r # rs) = Alt r (alts rs)"

definition plus :: "regex \<Rightarrow> regex" where "plus r = Seq r (Star r)"
definition lit :: "rune \<Rightarrow> regex" where "lit c = Cls (\<lambda>r. r = c)"
definition one_of :: "gostring \<Rightarrow> regex" where "one_of s = Cls (\<lambda>r. r \<in> set s)"
definition none_of :: "gostring \<Rightarrow> regex" where "none_of s = Cls (\<lambda>r. r \<notin> set s)"
definition re_s :: regex where "re_s = Cls is_re_space"
definition re_w :: regex where "re_w = Cls is_word_rune"

text \<open>A literal rune under \<^verbatim>\<open>(?i)\<close>: the rune itself or a rune of its case-folding orbit.\<close>

definition fold_matches :: "rune \<Rightarrow> rune \<Rightarrow> bool" where
  "fold_matches c r \<longleftrightarrow>
     r = c
     \<or> (((97 \<le> c \<and> c \<le> 122) \<or> (224 \<le> c \<and> c \<le> 254 \<and> c \<noteq> 247)) \<and> r + 32 = c)
     \<or> (c = 115 \<and> r = 383) \<or> (c = 107 \<and> r = 8490) \<or> (c = 229 \<and> r = 8491)"

definition lit_ci :: "gostring \<Rightarrow> regex" where
  "lit_ci s = seqs (map (\<lambda>c. Cls (fold_matches c)) s)"

section \<open>Text normalization and sentence segmentation\<close>

subsection \<open>normalizeTextForTTS\<close>

abbreviation (input) iquest :: rune where "iquest \<equiv> 0xBF"
abbreviation (input) iexcl :: rune where "iexcl \<equiv> 0xA1"

text \<open>The class of the upper-case letters A to Z and the accented capitals A, E, I, O, U
  with acute, N with tilde and U with diaeresis (U+00C1, U+00C9, U+00CD, U+00D3, U+00DA,
  U+00D1, U+00DC), as written in the patterns.\<close>

definition upper_es :: regex where
  "upper_es = Cls (\<lambda>r. (65 \<le> r \<and> r \<le> 90) \<or> r \<in> set [0xC1, 0xC9, 0xCD, 0xD3, 0xDA, 0xD1, 0xDC])"

lemma HasPrefix_length: "HasPrefix s old \<Longrightarrow> length old \<le> length s"
proof -
  assume "HasPrefix s old"
  then have "length (take (length old) s) = length old" by (simp add: HasPrefix_def)
  then show ?thesis by simp
qed

lemma replace_scan_length_le:
  "length new \<le> length old \<Longrightarrow> length (replace_scan old new s) \<le> length s"
proof (induction old new s rule: replace_scan.induct)
  case (1 old new)
  then show ?case by simp
next
  case (2 old new x xs)
  show ?case
  proof (cases "old \<noteq> [] \<and> HasPrefix (x # xs) old")
    case True
    then have le: "length old \<le> length (x # xs)" using HasPrefix_length by blast
    from True 2 have "length (replace_scan old new (drop (length old) (x # xs)))
        \<le> length (drop (length old) (x # xs))" by blast
    with le "2.prems" True show ?thesis by simp
  next
    case False
    with 2 have "length (replace_scan old new xs) \<le> length xs" by blast
    with False show ?thesis by auto
  qed
qed

lemma replace_scan_length_less:
  "length new < length old \<Longrightarrow> Contains s old \<Longrightarrow> length (replace_scan old new s) < length s"
proof (induction old new s rule: replace_scan.induct)
  case (1 old new)
  then show ?case by simp
next
  case (2 old new x xs)
  from "2.prems" have old: "old \<noteq> []" by auto
  show ?case
  proof (cases "HasPrefix (x # xs) old")
    case True
    then have le: "length old \<le> length (x # xs)" using HasPrefix_length by blast
    have "length (replace_scan old new (drop (length old) (x # xs))) \<le> length (drop (length old) (x # xs))"
      using "2.prems"(1) by (intro replace_scan_length_le) simp
    with le "2.prems"(1) True old show ?thesis by simp
  next
    case False
    with "2.prems" have "Contains xs old" by simp
    with 2 False have "length (replace_scan old new xs) < length xs" by blast
    with False show ?thesis by simp
  qed
qed

function collapse_double_dots :: "gostring \<Rightarrow> gostring" where
  "collapse_double_dots normalized =
     (if Contains normalized (str ''..'') \<and> \<not> Contains normalized (str ''...'')
      then collapse_double_dots (ReplaceAll normalized (str ''..'') (str ''.''))
      else normalized)"
  by pat_completeness auto
termination
proof (relation "measure length")
  show "wf (measure length)" by simp
next
  fix normalized :: gostring
  assume "Contains normalized (str ''..'') \<and> \<not> Contains normalized (str ''...'')"
  then have "length (replace_scan (str ''..'') (str ''.'') normalized) < length normalized"
    by (intro replace_scan_length_less) (simp_all add: str_def)
  then show "(ReplaceAll normalized (str ''..'') (str ''.''), normalized) \<in> measure length"
    by (simp add: ReplaceAll_def str_def)
qed

definition normalizeTextForTTS :: "gostring \<Rightarrow> gostring" where
  "normalizeTextForTTS text =
    (let normalized = text;
         normalized = ReplaceAllString (seqs [lit 10, Star re_s, lit 10]) normalized (\<lambda>c. str ''. '');
         normalized = ReplaceAll normalized [10] (str '' '');
         normalized = ReplaceAll normalized [0x201C] (str ''\"'');
         normalized = ReplaceAll normalized [0x201D] (str ''\"'');
         normalized = ReplaceAll normalized [0x2018] (str ''\"'');
         normalized = ReplaceAll normalized [0x2019] (str ''\"'');
         normalized = ReplaceAll normalized [0x2013] (str ''-'');
         normalized = ReplaceAll normalized [0x2014] (str ''-'');
         normalized = ReplaceAll normalized [0x2026] (str ''...'');
         normalized = ReplaceAll normalized [iquest, iexcl] [iquest];
         normalized = ReplaceAll normalized [iexcl, iquest] [iexcl];
         normalized = ReplaceAll normalized (str ''?!'') (str ''?'');
         normalized = ReplaceAll normalized (str ''!?'') (str ''!'');
         normalized = ReplaceAllString (seqs [lit iquest, plus (lit iquest)]) normalized (\<lambda>c. [iquest]);
         normalized = ReplaceAllString (seqs [lit iexcl, plus (lit iexcl)]) normalized (\<lambda>c. [iexcl]);
         normalized = ReplaceAllString (seqs [lit 63, plus (lit 63)]) normalized (\<lambda>c. str ''?'');
         normalized = ReplaceAllString (seqs [lit 33, plus (lit 33)]) normalized (\<lambda>c. str ''!'');
         normalized = ReplaceAllStringFunc
            (seqs [lit iquest, Group 1 (StarLazy (none_of (str ''?''))), lit 63]) normalized
            (\<lambda>match. let content = TrimPrefix (TrimSuffix match (str ''?'')) [iquest]
                      in [iquest] @ TrimSpace content @ str ''?'');
         normalized = ReplaceAllStringFunc
            (seqs [lit iexcl, Group 1 (StarLazy (none_of (str ''!''))), lit 33]) normalized
            (\<lambda>match. let content = TrimPrefix (TrimSuffix match (str ''!'')) [iexcl]
                      in [iexcl] @ TrimSpace content @ str ''!'');
         normalized = ReplaceAllString
            (seqs [lit iquest, Star re_s, Group 1 (StarLazy (none_of (str ''?''))), lit 46]) normalized
            (\<lambda>c. [iquest] @ submatch c 1 @ str ''?'');
         normalized = ReplaceAllString
            (seqs [lit iexcl, Star re_s, Group 1 (StarLazy (none_of (str ''!''))), lit 46]) normalized
            (\<lambda>c. [iexcl] @ submatch c 1 @ str ''!'');
         normalized = ReplaceAllString (seqs [lit 58, Star re_s, EndText]) normalized (\<lambda>c. str ''.'');
         normalized = ReplaceAllString (seqs [lit 58, Star re_s, Group 1 upper_es]) normalized
            (\<lambda>c. str ''. '' @ submatch c 1);
         normalized = ReplaceAllString
            (seqs [plus re_s, Group 1 (one_of (str ''.!?'' @ [iquest, iexcl] @ str '',;:''))]) normalized
            (\<lambda>c. submatch c 1);
         normalized = ReplaceAllString
            (seqs [Group 1 (one_of (str ''.!?'')), Star re_s, Group 2 (one_of [iquest, iexcl])]) normalized
            (\<lambda>c. submatch c 1 @ str '' '' @ submatch c 2);
         normalized = ReplaceAllString
            (seqs [Group 1 (one_of (str ''.!?'')), Star re_s, Group 2 upper_es]) normalized
            (\<lambda>c. submatch c 1 @ str '' '' @ submatch c 2);
         normalized = ReplaceAllString
            (seqs [Group 1 (one_of (str '',:;'')), Star re_s, Group 2 upper_es]) normalized
            (\<lambda>c. submatch c 1 @ str '' '' @ submatch c 2);
         normalized = ReplaceAllString (seqs [lit 46, lit 46, lit 46, lit 46, Star (lit 46)]) normalized
            (\<lambda>c. str ''...'');
         normalized = collapse_double_dots normalized;
         normalized = ReplaceAllString
            (seqs [Group 1 (one_of (str ''!?'')), Group 1 (one_of (str ''!?'')),
                   Star (Group 1 (one_of (str ''!?'')))]) normalized
            (\<lambda>c. submatch c 1);
         normalized = ReplaceAllString (plus re_s) normalized (\<lambda>c. str '' '');
         normalized = TrimSpace normalized
     in normalized)"


subsection \<open>enhanceSentenceForTTS\<close>

definition words_ci :: "string list \<Rightarrow> regex" where
  "words_ci ws = alts (map (\<lambda>w. lit_ci (str w)) ws)"

text \<open>The keyword lists of the patterns, with their accented letters:
  the interrogatives (que, quien, cuando, donde, como, por que, cual, each with its acute
  accent), the exclamatives (wow, increible with acute i, excelente, fantastico with acute
  a; the second pattern adds bravo and genial) and the affirmatives (yes, no, si, and si
  with acute i). Accented letters are written by code point: U+00E1 a, U+00E9 e, U+00ED i,
  U+00F3 o, U+00FA u with acute.\<close>

definition interrogatives :: "gostring list" where
  "interrogatives =
     [str ''qu'' @ [0xE9], str ''qui'' @ [0xE9] @ str ''n'', str ''cu'' @ [0xE1] @ str ''ndo'',
      str ''d'' @ [0xF3] @ str ''nde'', str ''c'' @ [0xF3] @ str ''mo'', str ''por qu'' @ [0xE9],
      str ''cu'' @ [0xE1] @ str ''l'']"

definition exclamatives :: "gostring list" where
  "exclamatives =
     [str ''wow'', str ''incre'' @ [0xED] @ str ''ble'', str ''excelente'',
      str ''fant'' @ [0xE1] @ str ''stico'']"

definition affirmatives :: "gostring list" where
  "affirmatives = [str ''yes'', str ''no'', str ''si'', str ''s'' @ [0xED]]"

definition keyword :: "gostring list \<Rightarrow> regex" where
  "keyword ws = seqs [WordBoundary, Group 1 (alts (map lit_ci ws)), WordBoundary]"

definition enhanceSentenceForTTS :: "gostring \<Rightarrow> gostring" where
  "enhanceSentenceForTTS sentence =
    (let enhanced = ReplaceAllString (plus (one_of [13, 10, 9])) sentence (\<lambda>c. str '' '');
         enhanced = ReplaceAllString (plus re_s) enhanced (\<lambda>c. str '' '');
         enhanced = TrimSpace enhanced
     in if enhanced = [] then enhanced
        else
         (let hasEndingPunctuation =
                MatchString (seqs [one_of (str ''.!?'' @ [0x2026]), EndText]) enhanced;
              enhanced =
                (if \<not> hasEndingPunctuation
                 then (if HasPrefix enhanced [iquest] \<or> MatchString (keyword interrogatives) enhanced
                       then enhanced @ str ''?''
                       else if HasPrefix enhanced [iexcl] \<or> MatchString (keyword exclamatives) enhanced
                       then enhanced @ str ''!''
                       else enhanced @ str ''.'')
                 else enhanced);
              enhanced =
                (if HasSuffix enhanced (str ''?'') \<and> \<not> Contains enhanced [iquest]
                    \<and> \<not> MatchString (keyword affirmatives) enhanced
                 then [iquest] @ enhanced else enhanced);
              enhanced =
                (if HasSuffix enhanced (str ''!'') \<and> \<not> Contains enhanced [iexcl]
                    \<and> MatchString (keyword (exclamatives @ [str ''bravo'', str ''genial''])) enhanced
                 then [iexcl] @ enhanced else enhanced);
              enhanced = ReplaceAllString (seqs [lit iquest, plus (lit iquest)]) enhanced (\<lambda>c. [iquest]);
              enhanced = ReplaceAllString (seqs [lit iexcl, plus (lit iexcl)]) enhanced (\<lambda>c. [iexcl]);
              enhanced = ReplaceAllString (seqs [lit 63, plus (lit 63)]) enhanced (\<lambda>c. str ''?'');
              enhanced = ReplaceAllString (seqs [lit 33, plus (lit 33)]) enhanced (\<lambda>c. str ''!'')
          in enhanced))"

subsection \<open>splitLongSentence\<close>

text \<open>The connectives of \<^verbatim>\<open>naturalBreaksPattern\<close>, in the pattern's order.\<close>

definition connectives :: "gostring list" where
  "connectives =
     [str ''pero'', str ''sin embargo'', str ''adem'' @ [0xE1] @ str ''s'', str ''por tanto'',
      str ''por lo tanto'', str ''no obstante'', str ''mientras'', str ''cuando'', str ''donde'',
      str ''como'', str ''que'', str ''si'', str ''aunque'', str ''porque'', str ''ya que'',
      str ''dado que'', str ''puesto que'']"

definition naturalBreaksPattern :: regex where
  "naturalBreaksPattern =
     Group 1 (seqs [one_of (str '',:;''), plus re_s, alts (map lit_ci connectives)])"

text \<open>The loop over \<^verbatim>\<open>parts\<close>; its state is \<^verbatim>\<open>chunks\<close> and \<^verbatim>\<open>currentChunk\<close>.\<close>

fun pack_parts :: "gostring list \<Rightarrow> gostring \<Rightarrow> gostring list \<Rightarrow> gostring list \<times> gostring" where
  "pack_parts chunks currentChunk [] = (chunks, currentChunk)"
| "pack_parts chunks currentChunk (part # parts) =
     (if len currentChunk > 0 \<and> len (currentChunk @ part) > 200
      then pack_parts
             (if TrimSpace currentChunk \<noteq> []
              then chunks @ [enhanceSentenceForTTS (TrimSpace currentChunk)] else chunks)
             part parts
      else pack_parts chunks (currentChunk @ part) parts)"

definition splitLongSentence :: "gostring \<Rightarrow> gostring list" where
  "splitLongSentence sentence =
     (let parts = Split naturalBreaksPattern sentence;
          (chunks, currentChunk) = pack_parts [] [] parts;
          chunks = (if TrimSpace currentChunk \<noteq> []
                    then chunks @ [enhanceSentenceForTTS (TrimSpace currentChunk)] else chunks)
      in if length chunks = 0 then [sentence] else chunks)"

subsection \<open>mergeShortFragments\<close>

definition wordCount :: "gostring \<Rightarrow> nat" where
  "wordCount sentence = length (FindAllString (seqs [WordBoundary, plus re_w, WordBoundary]) sentence)"

fun merge_loop :: "gostring list \<Rightarrow> gostring list \<Rightarrow> gostring list" where
  "merge_loop merged [] = merged"
| "merge_loop merged (sentence # rest) =
     (if wordCount sentence < 4 \<and> len sentence < 30
      then (if length merged > 0
            then merge_loop (butlast merged @ [last merged @ str '' '' @ sentence]) rest
            else (case rest of
                    next_sentence # rest' \<Rightarrow>
                      merge_loop (merged @ [sentence @ str '' '' @ next_sentence]) rest'
                  | [] \<Rightarrow> merge_loop (merged @ [sentence]) rest))
      else merge_loop (merged @ [sentence]) rest)"

definition mergeShortFragments :: "gostring list \<Rightarrow> gostring list" where
  "mergeShortFragments sentences = merge_loop [] sentences"

subsection \<open>splitSentences\<close>

definition abbreviations :: "gostring list" where
  "abbreviations =
     [str ''Sr.'', str ''Sra.'', str ''Srta.'', str ''Dr.'', str ''Dra.'', str ''Prof.'', str ''Profa.'',
      str ''Lic.'', str ''Licda.'', str ''Ing.'', str ''Inga.'', str ''Arq.'', str ''Arqa.'',
      str ''Mtro.'', str ''Mtra.'',
      str ''etc.'', str ''vs.'', str ''p.ej.'',
      str ''Mr.'', str ''Mrs.'', str ''Ms.'', str ''Inc.'', str ''Ltd.'', str ''Corp.'', str ''Co.'',
      str ''e.g.'', str ''i.e.'', str ''cf.'', str ''vol.'', str ''cap.'', str ''art.'',
      str ''n'' @ [0xFA] @ str ''m.'', str ''p'' @ [0xE1] @ str ''g.'', str ''ed.'', str ''op.cit.'']"

fun decimal :: "nat \<Rightarrow> gostring" where
  "decimal n = (if n < 10 then [48 + int n] else decimal (n div 10) @ [48 + int (n mod 10)])"

definition placeholder :: "nat \<Rightarrow> gostring" where
  "placeholder i = str ''__ABBREV_'' @ decimal i @ str ''__''"

text \<open>\<^verbatim>\<open>protectionMap\<close>, as the list of its entries (placeholder, abbreviation) in the
  order they are stored.\<close>

definition protectionMap :: "(gostring \<times> gostring) list" where
  "protectionMap = map (\<lambda>i. (placeholder i, abbreviations ! i)) [0..<length abbreviations]"

definition protect :: "gostring \<Rightarrow> gostring" where
  "protect normalizedText =
     foldl (\<lambda>protectedText (i, abbrev). ReplaceAll protectedText abbrev (placeholder i))
       normalizedText (zip [0..<length abbreviations] abbreviations)"

text \<open>The body of the scanning loop at one rune: \<open>r\<close> is \<^verbatim>\<open>runes[i]\<close>, \<open>rest\<close> the runes
  after it.\<close>

definition is_terminal_mark :: "rune \<Rightarrow> bool" where
  "is_terminal_mark r \<longleftrightarrow> r = 46 \<or> r = 33 \<or> r = 63"

definition scan_step ::
  "(rune \<Rightarrow> bool) \<Rightarrow> gostring list \<times> gostring \<Rightarrow> rune \<Rightarrow> gostring \<Rightarrow> gostring list \<times> gostring" where
  "scan_step upper_table st r rest =
     (let sentences = fst st;
          currentSentence = snd st @ [r]
      in if is_terminal_mark r
         then (if rest \<noteq> []
               then (case dropWhile unicode_IsSpace rest of
                       [] \<Rightarrow> (sentences, currentSentence)
                     | nextMeaningful # after \<Rightarrow>
                         if (unicode_IsUpper upper_table nextMeaningful
                               \<and> len (TrimSpace currentSentence) > 10)
                            \<or> nextMeaningful = iquest \<or> nextMeaningful = iexcl
                         then (let sentence = TrimSpace currentSentence
                               in (if len sentence > 3 then sentences @ [sentence] else sentences, []))
                         else (sentences, currentSentence))
               else (let sentence = TrimSpace currentSentence
                     in (if len sentence > 3 then sentences @ [sentence] else sentences, [])))
         else (sentences, currentSentence))"

fun scan :: "(rune \<Rightarrow> bool) \<Rightarrow> gostring list \<times> gostring \<Rightarrow> gostring \<Rightarrow> gostring list \<times> gostring" where
  "scan upper_table st [] = st"
| "scan upper_table st (r # rest) = scan upper_table (scan_step upper_table st r rest) rest"

definition scan_sentences :: "(rune \<Rightarrow> bool) \<Rightarrow> gostring \<Rightarrow> gostring list" where
  "scan_sentences upper_table protectedText =
     (let (sentences, currentSentence) = scan upper_table ([], []) protectedText
      in if len (TrimSpace currentSentence) > 3
         then sentences @ [TrimSpace currentSentence] else sentences)"

definition restore :: "(gostring \<times> gostring) list \<Rightarrow> gostring \<Rightarrow> gostring" where
  "restore entries sentence =
     foldl (\<lambda>sentence (placeholder, original). ReplaceAll sentence placeholder original)
       sentence entries"

text \<open>The loop that restores, enhances and splits the extracted sentences. Go iterates over
  a map in an unspecified order, chosen anew at each \<^verbatim>\<open>range\<close>: the order in which the
  entries of \<^verbatim>\<open>protectionMap\<close> are visited for the sentence at a position is the
  parameter \<open>visit\<close>.\<close>

fun process_sentences ::
  "(nat \<Rightarrow> (gostring \<times> gostring) list) \<Rightarrow> nat \<Rightarrow> gostring list \<Rightarrow> gostring list \<Rightarrow> gostring list" where
  "process_sentences visit i processedSentences [] = processedSentences"
| "process_sentences visit i processedSentences (sentence # rest) =
     (let sentence = restore (visit i) sentence;
          sentence = enhanceSentenceForTTS sentence
      in process_sentences visit (i + 1)
           (if len sentence > 3
            then (if len sentence > 400
                  then processedSentences @ splitLongSentence sentence
                  else processedSentences @ [sentence])
            else processedSentences)
           rest)"

definition splitSentences ::
  "(rune \<Rightarrow> bool) \<Rightarrow> (nat \<Rightarrow> (gostring \<times> gostring) list) \<Rightarrow> gostring \<Rightarrow> gostring list" where
  "splitSentences upper_table visit text =
     (if TrimSpace text = [] then []
      else
       (let normalizedText = normalizeTextForTTS text;
            protectedText = protect normalizedText;
            sentences = scan_sentences upper_table protectedText;
            processedSentences = process_sentences visit 0 [] sentences;
            finalSentences = mergeShortFragments processedSentences
        in finalSentences))"

definition no_upper_beyond_latin1 :: "rune \<Rightarrow> bool" where
  "no_upper_beyond_latin1 r = False"

definition stored_order :: "nat \<Rightarrow> (gostring \<times> gostring) list" where
  "stored_order i = protectionMap"

definition dr_smith :: gostring where
  "dr_smith = str ''Dr. Smith lleg'' @ [0xF3] @ str ''. Se fue.''"

section \<open>Audio concatenation (audio\_native.go)\<close>

text \<open>
  File paths are strings. The decoded content of a WAV file is the format of its
  \<^verbatim>\<open>fmt\<close> chunk (sample rate: 32 bits, channel count and bits per sample: 16 bits
  each) and its PCM samples. The codec itself (go-audio/wav) is a library outside the
  repository: a file that holds a WAV stream decodes to its format and samples, and
  encoding a buffer under a header stores exactly that header's format and the buffer's
  samples. The encoder computes with the duration of one sample in whole nanoseconds: for a
  sample rate above 1000000000 that duration is zero and the encoder divides by it, a
  run-time panic (integer divide by zero). \<^verbatim>\<open>readWAVFile\<close> takes the sample rate from
  the file as it is and \<^verbatim>\<open>writeWAVFile\<close> hands it to the encoder unchecked, after
  \<^verbatim>\<open>os.Create\<close> has created the output file. A panic is not a returned error: it is
  the result \<open>RuntimePanic\<close> of the model, with the file system as the panic leaves it.
\<close>

type_synonym path = string

record wav_data =
  wav_rate :: "32 word"
  wav_channels :: "16 word"
  wav_bits :: "16 word"
  wav_samples :: "int list"

datatype file_content = Wav wav_data | Garbage

text \<open>What an attempt to write a file at a path meets: \<^verbatim>\<open>os.Create\<close>,
  \<^verbatim>\<open>encoder.Write\<close> or \<^verbatim>\<open>encoder.Close\<close> may each fail.\<close>

datatype write_outcome = WriteOk | CreateFails | WriteFails | CloseFails

record fs =
  files :: "path \<rightharpoonup> file_content"
  on_write :: "path \<Rightarrow> write_outcome"

record WAVHeader =
  SampleRate :: "32 word"
  NumChannels :: "16 word"
  BitsPerSample :: "16 word"
  DataSize :: "32 word"

record IntBuffer =
  Data :: "int list"
  Format :: "32 word \<times> 16 word"

datatype io_error = OpenError | InvalidWAV | CreateError | WriteError | CloseError | EncoderPanic

datatype error =
    NoAudioFiles
  | RuntimePanic
  | ErrorReadingFirst io_error
  | ErrorReadingFile path io_error
  | FormatMismatch path
  | ErrorWriting io_error

definition readWAVFile :: "fs \<Rightarrow> path \<Rightarrow> io_error + (IntBuffer \<times> WAVHeader)" where
  "readWAVFile s filePath =
     (case files s filePath of
        None \<Rightarrow> Inl OpenError
      | Some Garbage \<Rightarrow> Inl InvalidWAV
      | Some (Wav w) \<Rightarrow>
          Inr (\<lparr>Data = wav_samples w, Format = (wav_rate w, wav_channels w)\<rparr>,
               \<lparr>SampleRate = wav_rate w, NumChannels = wav_channels w,
                BitsPerSample = wav_bits w, DataSize = 0\<rparr>))"

definition encoder_panics :: "WAVHeader \<Rightarrow> bool" where
  "encoder_panics header \<longleftrightarrow> 1000000000 < unat (SampleRate header)"

definition writeWAVFile :: "fs \<Rightarrow> path \<Rightarrow> IntBuffer \<Rightarrow> WAVHeader \<Rightarrow> (io_error + unit) \<times> fs" where
  "writeWAVFile s filePath buffer header =
     (if on_write s filePath = CreateFails then (Inl CreateError, s)
      else if encoder_panics header
      then (Inl EncoderPanic, s\<lparr>files := (files s)(filePath \<mapsto> Garbage)\<rparr>)
      else
     (case on_write s filePath of
        CreateFails \<Rightarrow> (Inl CreateError, s)
      | WriteFails \<Rightarrow> (Inl WriteError, s\<lparr>files := (files s)(filePath \<mapsto> Garbage)\<rparr>)
      | CloseFails \<Rightarrow> (Inl CloseError, s\<lparr>files := (files s)(filePath \<mapsto> Garbage)\<rparr>)
      | WriteOk \<Rightarrow>
          (Inr (), s\<lparr>files := (files s)(filePath \<mapsto>
             Wav \<lparr>wav_rate = SampleRate header, wav_channels = NumChannels header,
                  wav_bits = BitsPerSample header, wav_samples = Data buffer\<rparr>)\<rparr>)))"

definition os_Remove :: "fs \<Rightarrow> path \<Rightarrow> fs" where
  "os_Remove s p = s\<lparr>files := (files s)(p := None)\<rparr>"

text \<open>The loop \<^verbatim>\<open>for i := 1; i < len(audioFiles); i++\<close>: reads each further file,
  compares its format with the first header and appends its samples.\<close>

fun append_remaining :: "fs \<Rightarrow> WAVHeader \<Rightarrow> int list \<Rightarrow> path list \<Rightarrow> error + int list" where
  "append_remaining s header combinedData [] = Inr combinedData"
| "append_remaining s header combinedData (f # rest) =
     (case readWAVFile s f of
        Inl e \<Rightarrow> Inl (ErrorReadingFile f e)
      | Inr (buffer, fileHeader) \<Rightarrow>
          if SampleRate fileHeader \<noteq> SampleRate header \<or>
             NumChannels fileHeader \<noteq> NumChannels header \<or>
             BitsPerSample fileHeader \<noteq> BitsPerSample header
          then Inl (FormatMismatch f)
          else append_remaining s header (combinedData @ Data buffer) rest)"

text \<open>The clean-up loop \<^verbatim>\<open>for _, file := range audioFiles { os.Remove(file) }\<close>.\<close>

fun remove_all :: "fs \<Rightarrow> path list \<Rightarrow> fs" where
  "remove_all s [] = s"
| "remove_all s (f # rest) = remove_all (os_Remove s f) rest"

definition concatenateAudioNative :: "fs \<Rightarrow> path list \<Rightarrow> path \<Rightarrow> (error + unit) \<times> fs" where
  "concatenateAudioNative s audioFiles outputPath =
     (case audioFiles of
        [] \<Rightarrow> (Inl NoAudioFiles, s)
      | first # others \<Rightarrow>
          (case readWAVFile s first of
             Inl e \<Rightarrow> (Inl (ErrorReadingFirst e), s)
           | Inr (firstBuffer, header) \<Rightarrow>
               (case append_remaining s header (Data firstBuffer) others of
                  Inl e \<Rightarrow> (Inl e, s)
                | Inr combinedData \<Rightarrow>
                    (case writeWAVFile s outputPath
                            \<lparr>Data = combinedData, Format = Format firstBuffer\<rparr> header of
                       (Inl e, s') \<Rightarrow>
                         (Inl (if e = EncoderPanic then RuntimePanic else ErrorWriting e), s')
                     | (Inr u, s') \<Rightarrow> (Inr (), remove_all s' audioFiles)))))"



text \<open>A small file system for concrete runs: two mono 16-bit files at 22050 Hz and one at
  44100 Hz; every write succeeds.\<close>

definition wav_a :: wav_data where
  "wav_a = \<lparr>wav_rate = 22050, wav_channels = 1, wav_bits = 16, wav_samples = [1, - 2]\<rparr>"

definition wav_b :: wav_data where
  "wav_b = \<lparr>wav_rate = 44100, wav_channels = 1, wav_bits = 16, wav_samples = [5]\<rparr>"

definition wav_c :: wav_data where
  "wav_c = \<lparr>wav_rate = 22050, wav_channels = 1, wav_bits = 16, wav_samples = [3]\<rparr>"





section \<open>Parallel synthesis (generateAudioParallel)\<close>

text \<open>
  \<^verbatim>\<open>generateAudioParallel\<close> starts one goroutine per sentence; each submits
  \<^verbatim>\<open>generateAudio\<close> to the queue, waits for its result and then stores a
  \<^verbatim>\<open>SentenceResult\<close> at \<^verbatim>\<open>results[index]\<close> under a mutex. After
  \<^verbatim>\<open>wg.Wait()\<close> a single loop reads \<^verbatim>\<open>results\<close> in index order.

  The synthesis engine is an external process: what it does for the sentence at an index
  is a parameter (an error message, or the path of the file it wrote and that file's
  content). The order in which the goroutines store their results is the parameter
  \<open>completion\<close>, the list of sentence indices in completion order; the stores are
  serialized by the mutex, so a run of the concurrent part is the fold of
  \<open>task_completes\<close> over that list.
\<close>

record SentenceResult =
  Index :: nat
  AudioFile :: path
  Sentence :: gostring
  Error :: "string option"

datatype batch_error = ErrorProcessingSentence nat string

type_synonym synthesis = "nat \<Rightarrow> gostring \<Rightarrow> string + (path \<times> wav_data)"

definition zero_SentenceResult :: SentenceResult where
  "zero_SentenceResult = \<lparr>Index = 0, AudioFile = [], Sentence = [], Error = None\<rparr>"

definition task_completes ::
  "synthesis \<Rightarrow> gostring list \<Rightarrow> SentenceResult list \<times> fs \<Rightarrow> nat \<Rightarrow> SentenceResult list \<times> fs" where
  "task_completes generateAudio sentences st index =
     (let results = fst st; s = snd st; sent = sentences ! index in
      case generateAudio index sent of
        Inl err \<Rightarrow>
          (results[index := \<lparr>Index = index, AudioFile = [], Sentence = sent, Error = Some err\<rparr>], s)
      | Inr (audioFile, w) \<Rightarrow>
          (results[index := \<lparr>Index = index, AudioFile = audioFile, Sentence = sent, Error = None\<rparr>],
           s\<lparr>files := (files s)(audioFile \<mapsto> Wav w)\<rparr>))"

text \<open>The loop after \<^verbatim>\<open>wg.Wait()\<close>: on the first result that holds an error it removes
  the files collected so far and returns the error; otherwise it appends the result's file.\<close>

fun collect_results ::
  "SentenceResult list \<Rightarrow> path list \<Rightarrow> fs \<Rightarrow> (batch_error + path list) \<times> fs" where
  "collect_results [] audioFiles s = (Inr audioFiles, s)"
| "collect_results (result # rest) audioFiles s =
     (case Error result of
        Some e \<Rightarrow> (Inl (ErrorProcessingSentence (Index result + 1) e), remove_all s audioFiles)
      | None \<Rightarrow> collect_results rest (audioFiles @ [AudioFile result]) s)"

definition run_tasks ::
  "synthesis \<Rightarrow> nat list \<Rightarrow> gostring list \<Rightarrow> fs \<Rightarrow> SentenceResult list \<times> fs" where
  "run_tasks generateAudio completion sentences s =
     foldl (task_completes generateAudio sentences)
       (replicate (length sentences) zero_SentenceResult, s) completion"

definition generateAudioParallel ::
  "synthesis \<Rightarrow> nat list \<Rightarrow> gostring list \<Rightarrow> fs \<Rightarrow> (batch_error + path list) \<times> fs" where
  "generateAudioParallel generateAudio completion sentences s =
     (let st = run_tasks generateAudio completion sentences s
      in collect_results (fst st) [] (snd st))"

text \<open>Concrete runs: two sentences; a synthesis that succeeds for both, and one that fails
  for the first sentence and succeeds for the second.\<close>

definition sample_sentences :: "gostring list" where
  "sample_sentences = [[72, 105, 46], [66, 121, 101, 46]]"

definition sample_synthesis :: synthesis where
  "sample_synthesis i sent =
     (if i = 0 then Inr (''tts_a.wav'', wav_a)
      else if i = 1 then Inr (''tts_c.wav'', wav_c)
      else Inl ''piper failed'')"

definition failing_synthesis :: synthesis where
  "failing_synthesis i sent =
     (if i = 0 then Inl ''piper failed'' else Inr (''tts_b.wav'', wav_b))"

definition empty_fs :: fs where
  "empty_fs = \<lparr>files = Map.empty, on_write = (\<lambda>p. WriteOk)\<rparr>"

text \<open>The result stored for a sentence whose synthesis succeeded.\<close>

definition ok_result :: "gostring list \<Rightarrow> path list \<Rightarrow> nat \<Rightarrow> SentenceResult" where
  "ok_result sentences outs i = \<lparr>Index = i, AudioFile = outs ! i, Sentence = sentences ! i, Error = None\<rparr>"

section \<open>Bounded task queue (queue.go)\<close>

text \<open>
  The queue's state: the capacity, the map of running task ids, and the pending items (an
  item is identified by its id; ids are random and may repeat). Every method body runs
  under the queue's mutex, so the state changes in atomic steps: \<^verbatim>\<open>Add\<close> appends an
  item, \<^verbatim>\<open>SetMaxConcurrent\<close> stores the clamped capacity, \<^verbatim>\<open>processQueue\<close>
  runs its whole dispatch loop, and a finished task deletes its id from the running map.
  The goroutines started with \<^verbatim>\<open>go pq.processQueue()\<close> run at any later moment: in
  the model a dispatch step may occur anywhere in a sequence of events.
\<close>

record ProcessQueue =
  MaxConcurrent :: int
  running :: "string \<rightharpoonup> bool"
  queue :: "string list"
  cpuCores :: int

definition clamp_concurrent :: "int \<Rightarrow> int" where
  "clamp_concurrent maxConcurrent =
     (let m = (if maxConcurrent < 1 then 1 else maxConcurrent)
      in if m > 32 then 32 else m)"

definition NewProcessQueue :: "int \<Rightarrow> int \<Rightarrow> ProcessQueue" where
  "NewProcessQueue cores maxConcurrent =
     \<lparr>MaxConcurrent = clamp_concurrent maxConcurrent, running = Map.empty, queue = [],
      cpuCores = cores\<rparr>"

definition SetMaxConcurrent :: "ProcessQueue \<Rightarrow> int \<Rightarrow> ProcessQueue" where
  "SetMaxConcurrent pq max_arg = pq\<lparr>MaxConcurrent := clamp_concurrent max_arg\<rparr>"

definition Add_enqueue :: "ProcessQueue \<Rightarrow> string \<Rightarrow> ProcessQueue" where
  "Add_enqueue pq tid = pq\<lparr>queue := queue pq @ [tid]\<rparr>"

definition len_running :: "ProcessQueue \<Rightarrow> int" where
  "len_running pq = int (card (dom (running pq)))"

definition start_running :: "(string \<rightharpoonup> bool) \<Rightarrow> string \<Rightarrow> (string \<rightharpoonup> bool)" where
  "start_running run tid = run(tid \<mapsto> True)"

fun dispatch_loop :: "int \<Rightarrow> (string \<rightharpoonup> bool) \<Rightarrow> string list \<Rightarrow> (string \<rightharpoonup> bool) \<times> string list" where
  "dispatch_loop maxc run [] = (run, [])"
| "dispatch_loop maxc run (item # rest) =
     (if int (card (dom run)) < maxc
      then dispatch_loop maxc (start_running run item) rest
      else (run, item # rest))"

definition processQueue :: "ProcessQueue \<Rightarrow> ProcessQueue" where
  "processQueue pq =
     (let (run, q) = dispatch_loop (MaxConcurrent pq) (running pq) (queue pq)
      in pq\<lparr>running := run, queue := q\<rparr>)"

definition task_finished :: "ProcessQueue \<Rightarrow> string \<Rightarrow> ProcessQueue" where
  "task_finished pq tid = pq\<lparr>running := (running pq)(tid := None)\<rparr>"

datatype event = Add string | SetMax int | Dispatch | Finished string

fun step :: "ProcessQueue \<Rightarrow> event \<Rightarrow> ProcessQueue" where
  "step pq (Add tid) = Add_enqueue pq tid"
| "step pq (SetMax m) = SetMaxConcurrent pq m"
| "step pq Dispatch = processQueue pq"
| "step pq (Finished tid) = task_finished pq tid"

definition run_events :: "ProcessQueue \<Rightarrow> event list \<Rightarrow> ProcessQueue" where
  "run_events pq evs = foldl step pq evs"

text \<open>A capacity change that sets the capacity below the number of running tasks, and the
  event sequences that contain no such change.\<close>

fun lowers_below_running :: "ProcessQueue \<Rightarrow> event \<Rightarrow> bool" where
  "lowers_below_running pq (SetMax m) = (clamp_concurrent m < len_running pq)"
| "lowers_below_running pq e = False"

fun never_lowered_below_running :: "ProcessQueue \<Rightarrow> event list \<Rightarrow> bool" where
  "never_lowered_below_running pq [] = True"
| "never_lowered_below_running pq (e # es) =
     (\<not> lowers_below_running pq e \<and> never_lowered_below_running (step pq e) es)"

definition queue_inv :: "ProcessQueue \<Rightarrow> bool" where
  "queue_inv pq \<longleftrightarrow> 1 \<le> MaxConcurrent pq \<and> MaxConcurrent pq \<le> 32
      \<and> finite (dom (running pq)) \<and> len_running pq \<le> 32"

text \<open>The test \<^verbatim>\<open>wordCount < 4 && len(sentence) < 30\<close> of mergeShortFragments, and a
  sentence that fails it.\<close>

definition short_fragment :: "gostring \<Rightarrow> bool" where
  "short_fragment sentence \<longleftrightarrow> wordCount sentence < 4 \<and> len sentence < 30"

text \<open>Words counted directly: \<open>count_runs P inside s\<close> is the number of maximal runs of
  runes satisfying \<open>P\<close> that begin in \<open>s\<close>, where \<open>inside\<close> tells whether the rune before
  \<open>s\<close> satisfies \<open>P\<close>. An ASCII word is a maximal run of ASCII letters, digits and
  underscores; a short fragment by that count has fewer than 4 of them and fewer than 30
  bytes. A word in the sense of a reader is a maximal run of letters, accented ones
  included (here: the letters of ASCII and Latin-1). The last definition is the question
  \<^verbatim>\<open>Como estas?\<close> in Spanish spelling: inverted question mark, o acute (U+00F3) in the
  first word and a acute (U+00E1) in the second.\<close>

fun count_runs :: "(rune \<Rightarrow> bool) \<Rightarrow> bool \<Rightarrow> gostring \<Rightarrow> nat" where
  "count_runs P inside [] = 0"
| "count_runs P inside (x # xs) =
     (if P x then (if inside then 0 else 1) + count_runs P True xs else count_runs P False xs)"

definition ascii_words :: "gostring \<Rightarrow> nat" where
  "ascii_words s = count_runs is_word_rune False s"

definition short_by_ascii_words :: "gostring \<Rightarrow> bool" where
  "short_by_ascii_words sentence \<longleftrightarrow> ascii_words sentence < 4 \<and> len sentence < 30"

definition is_letter :: "rune \<Rightarrow> bool" where
  "is_letter r \<longleftrightarrow>
     (65 \<le> r \<and> r \<le> 90) \<or> (97 \<le> r \<and> r \<le> 122)
     \<or> (0xC0 \<le> r \<and> r \<le> 0xFF \<and> r \<noteq> 0xD7 \<and> r \<noteq> 0xF7)"

definition letter_words :: "gostring \<Rightarrow> nat" where
  "letter_words s = count_runs is_letter False s"

definition como_estas :: gostring where
  "como_estas = [iquest] @ str ''C'' @ [0xF3] @ str ''mo est'' @ [0xE1] @ str ''s?''"

definition long_example :: gostring where
  "long_example = str ''This is a long enough sentence here.''"

text \<open>The state of the scanning loop (\<^verbatim>\<open>sentences\<close>, \<^verbatim>\<open>currentSentence\<close>) on
  entry to iteration \<open>i\<close>; the first non-space rune after a position; and the test the
  loop makes there on the trimmed buffer and that rune.\<close>

fun state_before :: "(rune \<Rightarrow> bool) \<Rightarrow> gostring \<Rightarrow> nat \<Rightarrow> gostring list \<times> gostring" where
  "state_before upper_table runes 0 = ([], [])"
| "state_before upper_table runes (Suc i) =
     scan_step upper_table (state_before upper_table runes i) (runes ! i) (drop (Suc i) runes)"

definition next_meaningful :: "gostring \<Rightarrow> rune option" where
  "next_meaningful rest = (case dropWhile unicode_IsSpace rest of [] \<Rightarrow> None | x # xs \<Rightarrow> Some x)"

definition boundary_after :: "(rune \<Rightarrow> bool) \<Rightarrow> gostring \<Rightarrow> gostring \<Rightarrow> bool" where
  "boundary_after upper_table current rest \<longleftrightarrow>
     (case next_meaningful rest of
        None \<Rightarrow> False
      | Some nxt \<Rightarrow> (unicode_IsUpper upper_table nxt \<and> len current > 10) \<or> nxt = iquest \<or> nxt = iexcl)"

definition hello_bye :: gostring where
  "hello_bye = str ''Hello world. Bye.''"


definition pero_example :: gostring where
  "pero_example = str ''aaa, pero bbb.''"

text \<open>The sentences of the example \<^verbatim>\<open>Dr. Smith llego. Se fue.\<close> (with o acute, U+00F3):
  the first one as the scan sees it, with the abbreviation replaced by its placeholder,
  and as restored; and the second one.\<close>

definition dr_protected :: gostring where
  "dr_protected = str ''__ABBREV_3__ Smith lleg'' @ [0xF3] @ str ''.''"

definition dr_sentence :: gostring where
  "dr_sentence = str ''Dr. Smith lleg'' @ [0xF3] @ str ''.''"

definition se_fue :: gostring where
  "se_fue = str ''Se fue.''"

text \<open>The test of the scanning loop with the trimmed buffer measured in characters
  (runes) instead of bytes; and a text whose first sentence has ten characters, two of
  them the letter e acute (U+00E9), two bytes each in UTF-8.\<close>

definition boundary_by_characters :: "(rune \<Rightarrow> bool) \<Rightarrow> gostring \<Rightarrow> gostring \<Rightarrow> bool" where
  "boundary_by_characters upper_table current rest \<longleftrightarrow>
     (case next_meaningful rest of
        None \<Rightarrow> False
      | Some nxt \<Rightarrow>
          (unicode_IsUpper upper_table nxt \<and> length current > 10) \<or> nxt = iquest \<or> nxt = iexcl)"

definition dee :: gostring where
  "dee = str ''a b c d'' @ [0xE9, 0xE9] @ str ''.''"

definition dee_luego :: gostring where
  "dee_luego = dee @ str '' Luego''"








section \<open>Verified properties\<close>

subsection \<open>Audio concatenation\<close>


text \<open>C10: for the empty list of audio files, concatenateAudioNative returns the error
  "no audio files to concatenate" and leaves the file system as it was: no output file
  is created. The call returns a value (an error), it does not panic.\<close>

theorem concatenate_empty_is_error:
  "concatenateAudioNative s [] outputPath = (Inl NoAudioFiles, s)"
  by (simp add: concatenateAudioNative_def)





lemma on_write_remove_all: "on_write (remove_all s ps) = on_write s"
  by (induction ps arbitrary: s) (auto simp: os_Remove_def)




subsection \<open>Parallel synthesis\<close>

lemma length_task_completes [simp]:
  "length (fst (task_completes g sentences st i)) = length (fst st)"
  by (simp add: task_completes_def Let_def split: sum.splits prod.splits)

lemma length_foldl_task [simp]:
  "length (fst (foldl (task_completes g sentences) st order)) = length (fst st)"
  by (induction order arbitrary: st) simp_all

lemma foldl_task_nth:
  assumes ok: "\<And>i. i < length sentences \<Longrightarrow> \<exists>w. g i (sentences ! i) = Inr (outs ! i, w)"
    and len: "length (fst st) = length sentences"
    and ord: "set order \<subseteq> {..<length sentences}"
    and i: "i < length sentences"
  shows "fst (foldl (task_completes g sentences) st order) ! i =
           (if i \<in> set order then ok_result sentences outs i else fst st ! i)"
  using len ord
proof (induction order arbitrary: st)
  case Nil
  then show ?case by simp
next
  case (Cons j order)
  from Cons.prems have j: "j < length sentences" by simp
  from ok [OF j] obtain w where g: "g j (sentences ! j) = Inr (outs ! j, w)" ..
  let ?st = "task_completes g sentences st j"
  have fst_st: "fst ?st = (fst st)[j := ok_result sentences outs j]"
    by (simp add: task_completes_def Let_def g ok_result_def)
  have "fst (foldl (task_completes g sentences) ?st order) ! i =
          (if i \<in> set order then ok_result sentences outs i else fst ?st ! i)"
    using Cons.prems by (intro Cons.IH) simp_all
  then show ?case
    using i j Cons.prems(1) by (auto simp: fst_st nth_list_update)
qed

lemma collect_results_ok:
  "\<forall>r \<in> set rs. Error r = None \<Longrightarrow>
   collect_results rs acc s = (Inr (acc @ map AudioFile rs), s)"
  by (induction rs arbitrary: acc) simp_all

text \<open>C1: when the synthesis of every sentence succeeds, generateAudioParallel returns the
  audio file paths in sentence order, position i holding the file of sentence i, whatever
  the order in which the tasks completed (any permutation of the indices). The results
  array has the length of the input and, once all tasks have completed, entry i holds
  index i, the file and the sentence of task i.\<close>

theorem parallel_results_in_sentence_order:
  assumes ok: "\<forall>i < length sentences. \<exists>w. generateAudio i (sentences ! i) = Inr (outs ! i, w)"
    and len: "length outs = length sentences"
    and perm: "distinct completion \<and> set completion = {..<length sentences}"
  shows "fst (generateAudioParallel generateAudio completion sentences s) = Inr outs
       \<and> length (fst (run_tasks generateAudio completion sentences s)) = length sentences
       \<and> (\<forall>i < length sentences.
            fst (run_tasks generateAudio completion sentences s) ! i
              = \<lparr>Index = i, AudioFile = outs ! i, Sentence = sentences ! i, Error = None\<rparr>)"
proof -
  have nth: "fst (foldl (task_completes generateAudio sentences)
                 (replicate (length sentences) zero_SentenceResult, s0) completion) ! i
             = ok_result sentences outs i" if "i < length sentences" for i s0
    using foldl_task_nth [of sentences generateAudio outs
        "(replicate (length sentences) zero_SentenceResult, s0)" completion i] ok perm that
    by simp
  have all: "fst (foldl (task_completes generateAudio sentences)
                 (replicate (length sentences) zero_SentenceResult, s0) completion)
             = map (ok_result sentences outs) [0..<length sentences]" for s0
    by (rule nth_equalityI) (simp_all add: nth)
  have files: "map AudioFile (map (ok_result sentences outs) [0..<length sentences]) = outs"
    using len by (intro nth_equalityI) (simp_all add: ok_result_def)
  have "fst (generateAudioParallel generateAudio completion sentences s) = Inr outs"
    by (simp add: generateAudioParallel_def run_tasks_def Let_def all collect_results_ok ok_result_def files [simplified])
  moreover have "length (fst (run_tasks generateAudio completion sentences s)) = length sentences"
    by (simp add: run_tasks_def)
  moreover have "\<forall>i < length sentences.
            fst (run_tasks generateAudio completion sentences s) ! i
              = \<lparr>Index = i, AudioFile = outs ! i, Sentence = sentences ! i, Error = None\<rparr>"
    by (simp add: run_tasks_def nth ok_result_def)
  ultimately show ?thesis by blast
qed

theorem parallel_results_in_sentence_order_witness:
  "fst (generateAudioParallel sample_synthesis [1, 0] sample_sentences empty_fs)
     = Inr [''tts_a.wav'', ''tts_c.wav'']
   \<and> length (fst (run_tasks sample_synthesis [1, 0] sample_sentences empty_fs)) = 2
   \<and> Index (fst (run_tasks sample_synthesis [1, 0] sample_sentences empty_fs) ! 1) = 1
   \<and> AudioFile (fst (run_tasks sample_synthesis [1, 0] sample_sentences empty_fs) ! 1) = ''tts_c.wav''"
proof -
  have ok: "\<forall>i < length sample_sentences.
      \<exists>w. sample_synthesis i (sample_sentences ! i) = Inr ([''tts_a.wav'', ''tts_c.wav''] ! i, w)"
    by (simp add: sample_sentences_def sample_synthesis_def less_Suc_eq)
  have len: "length [''tts_a.wav'', ''tts_c.wav''] = length sample_sentences"
    by (simp add: sample_sentences_def)
  have perm: "distinct [1, 0::nat] \<and> set [1, 0::nat] = {..<length sample_sentences}"
    by (auto simp: sample_sentences_def)
  from parallel_results_in_sentence_order
         [of sample_sentences sample_synthesis "[''tts_a.wav'', ''tts_c.wav'']" "[1, 0]" empty_fs,
          OF ok len perm]
  show ?thesis by (simp add: sample_sentences_def)
qed

text \<open>C2 at a failing input: two sentences, the synthesis of the first fails and that of the
  second succeeds and writes \<^verbatim>\<open>tts_b.wav\<close>. The call returns the error of sentence 1 and
  no file list, but the file written for the second sentence is still there afterwards:
  the clean-up removes only the files collected before the failing index.\<close>

theorem artifact_after_failing_index_survives:
  "fst (generateAudioParallel failing_synthesis [1, 0] sample_sentences empty_fs)
     = Inl (ErrorProcessingSentence 1 ''piper failed'')
   \<and> files (snd (generateAudioParallel failing_synthesis [1, 0] sample_sentences empty_fs)) ''tts_b.wav''
     = Some (Wav wav_b)"
  by (simp add: generateAudioParallel_def run_tasks_def task_completes_def failing_synthesis_def
      sample_sentences_def empty_fs_def zero_SentenceResult_def Let_def)

subsection \<open>Bounded task queue\<close>

lemma clamp_range: "1 \<le> clamp_concurrent m \<and> clamp_concurrent m \<le> 32"
  by (simp add: clamp_concurrent_def Let_def)

lemma dom_start_running [simp]: "dom (start_running run tid) = insert tid (dom run)"
  by (simp add: start_running_def)

lemma dispatch_loop_finite:
  "finite (dom run) \<Longrightarrow> finite (dom (fst (dispatch_loop maxc run q)))"
proof (induction q arbitrary: run)
  case Nil
  then show ?case by simp
next
  case (Cons item rest)
  have "finite (dom (start_running run item))" using Cons.prems by simp
  from Cons.IH [OF this] Cons.prems show ?case by simp
qed

lemma dispatch_loop_mono:
  "dom run \<subseteq> dom (fst (dispatch_loop maxc run q))"
proof (induction q arbitrary: run)
  case Nil
  then show ?case by simp
next
  case (Cons item rest)
  have "dom run \<subseteq> dom (start_running run item)" by (simp add: subset_insertI)
  with Cons.IH [of "start_running run item"]
  have "dom run \<subseteq> dom (fst (dispatch_loop maxc (start_running run item) rest))"
    by (rule order_trans [rotated])
  then show ?case by simp
qed

lemma card_dom_upd_le:
  "finite (dom run) \<Longrightarrow> int (card (dom (start_running run k))) \<le> int (card (dom run)) + 1"
  by (simp add: card_insert_if)

lemma dispatch_loop_bound:
  "finite (dom run) \<Longrightarrow>
   int (card (dom (fst (dispatch_loop maxc run q)))) \<le> max (int (card (dom run))) maxc"
proof (induction q arbitrary: run)
  case Nil
  then show ?case by simp
next
  case (Cons item rest)
  show ?case
  proof (cases "int (card (dom run)) < maxc")
    case True
    have fin: "finite (dom (start_running run item))" using Cons.prems by simp
    have step: "int (card (dom (fst (dispatch_loop maxc (start_running run item) rest))))
        \<le> max (int (card (dom (start_running run item)))) maxc"
      by (rule Cons.IH [OF fin])
    from card_dom_upd_le [OF Cons.prems, of item] True
    have "int (card (dom (start_running run item))) \<le> maxc" by linarith
    with step have "int (card (dom (fst (dispatch_loop maxc (start_running run item) rest)))) \<le> maxc"
      by linarith
    then show ?thesis using True by simp
  next
    case False
    then show ?thesis by simp
  qed
qed

lemma dispatch_loop_idle:
  "maxc \<le> int (card (dom run)) \<Longrightarrow> dispatch_loop maxc run q = (run, q)"
  by (cases q) simp_all

lemma queue_inv_New: "queue_inv (NewProcessQueue cores n)"
  using clamp_range [of n] by (simp add: queue_inv_def NewProcessQueue_def len_running_def)

lemma queue_inv_step: "queue_inv pq \<Longrightarrow> queue_inv (step pq e)"
proof (cases e)
  case (Add tid)
  assume "queue_inv pq"
  then show ?thesis using Add by (simp add: queue_inv_def Add_enqueue_def len_running_def)
next
  case (SetMax m)
  assume "queue_inv pq"
  then show ?thesis using SetMax clamp_range [of m]
    by (simp add: queue_inv_def SetMaxConcurrent_def len_running_def)
next
  case Dispatch
  assume inv: "queue_inv pq"
  then have fin: "finite (dom (running pq))" by (simp add: queue_inv_def)
  from dispatch_loop_bound [OF fin, of "MaxConcurrent pq" "queue pq"] inv
  have "int (card (dom (fst (dispatch_loop (MaxConcurrent pq) (running pq) (queue pq))))) \<le> 32"
    unfolding queue_inv_def len_running_def by linarith
  with inv dispatch_loop_finite [OF fin, of "MaxConcurrent pq" "queue pq"] show ?thesis
    using Dispatch
    by (simp add: queue_inv_def processQueue_def len_running_def split_beta)
next
  case (Finished tid)
  assume inv: "queue_inv pq"
  then have fin: "finite (dom (running pq))" by (simp add: queue_inv_def)
  have "card (dom (running pq) - {tid}) \<le> card (dom (running pq))"
    by (rule card_mono [OF fin]) auto
  with inv show ?thesis using Finished
    by (simp add: queue_inv_def task_finished_def len_running_def)
qed

lemma queue_inv_run: "queue_inv pq \<Longrightarrow> queue_inv (run_events pq evs)"
  unfolding run_events_def
  by (induction evs arbitrary: pq) (simp_all add: queue_inv_step)

lemma step_preserves_bound:
  assumes inv: "queue_inv pq" and le: "len_running pq \<le> MaxConcurrent pq"
    and e: "\<not> lowers_below_running pq e"
  shows "len_running (step pq e) \<le> MaxConcurrent (step pq e)"
proof (cases e)
  case (Add tid)
  with le show ?thesis by (simp add: Add_enqueue_def len_running_def)
next
  case (SetMax m)
  with e show ?thesis by (simp add: SetMaxConcurrent_def len_running_def)
next
  case Dispatch
  from inv have fin: "finite (dom (running pq))" by (simp add: queue_inv_def)
  from dispatch_loop_bound [OF fin, of "MaxConcurrent pq" "queue pq"] le
  show ?thesis using Dispatch
    by (simp add: processQueue_def len_running_def split_beta)
next
  case (Finished tid)
  from inv have fin: "finite (dom (running pq))" by (simp add: queue_inv_def)
  have "card (dom (running pq) - {tid}) \<le> card (dom (running pq))"
    by (rule card_mono [OF fin]) auto
  with le show ?thesis using Finished
    by (simp add: task_finished_def len_running_def)
qed

lemma run_preserves_bound:
  "queue_inv pq \<Longrightarrow> len_running pq \<le> MaxConcurrent pq \<Longrightarrow>
   never_lowered_below_running pq evs \<Longrightarrow>
   len_running (run_events pq evs) \<le> MaxConcurrent (run_events pq evs)"
  unfolding run_events_def
proof (induction evs arbitrary: pq)
  case Nil
  then show ?case by simp
next
  case (Cons e evs)
  from Cons.prems have "len_running (step pq e) \<le> MaxConcurrent (step pq e)"
    by (intro step_preserves_bound) simp_all
  with Cons show ?case by (simp add: queue_inv_step)
qed

text \<open>C3 as stated fails: with capacity 4, two tasks are dispatched and run; lowering the
  capacity to 1 leaves both running, so the running set (2) exceeds the capacity (1).\<close>

theorem running_exceeds_lowered_capacity:
  "MaxConcurrent (run_events (NewProcessQueue 2 4) [Add ''a1'', Add ''b2'', Dispatch, SetMax 1]) = 1
   \<and> len_running (run_events (NewProcessQueue 2 4) [Add ''a1'', Add ''b2'', Dispatch, SetMax 1]) = 2
   \<and> \<not> len_running (run_events (NewProcessQueue 2 4) [Add ''a1'', Add ''b2'', Dispatch, SetMax 1])
         \<le> MaxConcurrent (run_events (NewProcessQueue 2 4) [Add ''a1'', Add ''b2'', Dispatch, SetMax 1])"
  by (simp add: run_events_def NewProcessQueue_def clamp_concurrent_def Add_enqueue_def
      processQueue_def SetMaxConcurrent_def len_running_def Let_def start_running_def)

text \<open>C3 amended: in every state reached from NewProcessQueue by any sequence of Add,
  SetMaxConcurrent, processQueue and task completions, MaxConcurrent is in [1,32] and at
  most 32 tasks run; the running set does not exceed MaxConcurrent as long as no
  SetMaxConcurrent has set the capacity below the number of tasks running at that moment;
  SetMaxConcurrent never removes a running task; processQueue never raises the running
  count above the larger of its previous value and MaxConcurrent, and starts nothing while
  the running count is at or above MaxConcurrent.\<close>

theorem queue_capacity_and_throttled_dispatch:
  "1 \<le> MaxConcurrent (run_events (NewProcessQueue cores n) evs)
   \<and> MaxConcurrent (run_events (NewProcessQueue cores n) evs) \<le> 32
   \<and> len_running (run_events (NewProcessQueue cores n) evs) \<le> 32
   \<and> (never_lowered_below_running (NewProcessQueue cores n) evs \<longrightarrow>
        len_running (run_events (NewProcessQueue cores n) evs)
          \<le> MaxConcurrent (run_events (NewProcessQueue cores n) evs))
   \<and> running (SetMaxConcurrent (run_events (NewProcessQueue cores n) evs) m)
        = running (run_events (NewProcessQueue cores n) evs)
   \<and> len_running (processQueue (run_events (NewProcessQueue cores n) evs))
        \<le> max (len_running (run_events (NewProcessQueue cores n) evs))
               (MaxConcurrent (run_events (NewProcessQueue cores n) evs))
   \<and> (MaxConcurrent (run_events (NewProcessQueue cores n) evs)
          \<le> len_running (run_events (NewProcessQueue cores n) evs) \<longrightarrow>
        processQueue (run_events (NewProcessQueue cores n) evs)
          = run_events (NewProcessQueue cores n) evs)"
proof -
  let ?pq = "run_events (NewProcessQueue cores n) evs"
  have inv: "queue_inv ?pq" by (rule queue_inv_run [OF queue_inv_New])
  then have fin: "finite (dom (running ?pq))" by (simp add: queue_inv_def)
  have 1: "1 \<le> MaxConcurrent ?pq" "MaxConcurrent ?pq \<le> 32" "len_running ?pq \<le> 32"
    using inv by (simp_all add: queue_inv_def)
  have 2: "len_running ?pq \<le> MaxConcurrent ?pq"
    if "never_lowered_below_running (NewProcessQueue cores n) evs"
  proof (rule run_preserves_bound [OF queue_inv_New _ that])
    show "len_running (NewProcessQueue cores n) \<le> MaxConcurrent (NewProcessQueue cores n)"
      using clamp_range [of n] by (simp add: NewProcessQueue_def len_running_def)
  qed
  have 3: "running (SetMaxConcurrent ?pq m) = running ?pq"
    by (simp add: SetMaxConcurrent_def)
  have 4: "len_running (processQueue ?pq) \<le> max (len_running ?pq) (MaxConcurrent ?pq)"
    using dispatch_loop_bound [OF fin, of "MaxConcurrent ?pq" "queue ?pq"]
    by (simp add: processQueue_def len_running_def split_beta)
  have 5: "processQueue ?pq = ?pq" if "MaxConcurrent ?pq \<le> len_running ?pq"
    using that by (simp add: processQueue_def len_running_def dispatch_loop_idle)
  from 1 2 3 4 5 show ?thesis by blast
qed

theorem queue_capacity_and_throttled_dispatch_witness:
  "never_lowered_below_running (NewProcessQueue 2 2)
      [Add ''a1'', Add ''b2'', Add ''c3'', Dispatch, SetMax 3, Finished ''a1'']
   \<and> len_running (run_events (NewProcessQueue 2 2)
        [Add ''a1'', Add ''b2'', Add ''c3'', Dispatch, SetMax 3, Finished ''a1''])
       \<le> MaxConcurrent (run_events (NewProcessQueue 2 2)
        [Add ''a1'', Add ''b2'', Add ''c3'', Dispatch, SetMax 3, Finished ''a1''])
   \<and> MaxConcurrent (run_events (NewProcessQueue 2 2)
        [Add ''a1'', Add ''b2'', Add ''c3'', Dispatch, SetMax 3, Finished ''a1'']) = 3
   \<and> queue (run_events (NewProcessQueue 2 2)
        [Add ''a1'', Add ''b2'', Add ''c3'', Dispatch, SetMax 3, Finished ''a1'']) = [''c3'']"
proof -
  have ok: "never_lowered_below_running (NewProcessQueue 2 2)
      [Add ''a1'', Add ''b2'', Add ''c3'', Dispatch, SetMax 3, Finished ''a1'']"
    by (simp add: NewProcessQueue_def clamp_concurrent_def Add_enqueue_def
        processQueue_def SetMaxConcurrent_def len_running_def Let_def start_running_def)
  from queue_capacity_and_throttled_dispatch [of 2 2
      "[Add ''a1'', Add ''b2'', Add ''c3'', Dispatch, SetMax 3, Finished ''a1'']" 3] ok
  have "len_running (run_events (NewProcessQueue 2 2)
        [Add ''a1'', Add ''b2'', Add ''c3'', Dispatch, SetMax 3, Finished ''a1''])
       \<le> MaxConcurrent (run_events (NewProcessQueue 2 2)
        [Add ''a1'', Add ''b2'', Add ''c3'', Dispatch, SetMax 3, Finished ''a1''])"
    by blast
  moreover have "MaxConcurrent (run_events (NewProcessQueue 2 2)
        [Add ''a1'', Add ''b2'', Add ''c3'', Dispatch, SetMax 3, Finished ''a1'']) = 3
     \<and> queue (run_events (NewProcessQueue 2 2)
        [Add ''a1'', Add ''b2'', Add ''c3'', Dispatch, SetMax 3, Finished ''a1'']) = [''c3'']"
    by (simp add: run_events_def NewProcessQueue_def clamp_concurrent_def Add_enqueue_def
        processQueue_def SetMaxConcurrent_def task_finished_def len_running_def Let_def
        start_running_def)
  ultimately show ?thesis using ok by blast
qed

subsection \<open>Counting words\<close>

lemma star_cls_greedy:
  "k (if takeWhile Q ys = [] then prev else Some (last (takeWhile Q ys))) (dropWhile Q ys) c = Some m \<Longrightarrow>
   rx (Star (Cls Q)) prev ys c k = Some m"
proof (induction ys arbitrary: prev)
  case Nil
  then show ?case by simp
next
  case (Cons y ys)
  show ?case
  proof (cases "Q y")
    case True
    have "rx (Star (Cls Q)) (Some y) ys c k = Some m"
      by (rule Cons.IH) (use Cons.prems True in \<open>auto split: if_splits\<close>)
    with True show ?thesis by simp
  next
    case False
    with Cons.prems show ?thesis by simp
  qed
qed

lemma dropWhile_head: "dropWhile Q xs = a # list \<Longrightarrow> \<not> Q a"
  using hd_dropWhile [of Q xs] by simp

lemma word_match:
  "rx_match (Seq WordBoundary (Seq (plus re_w) WordBoundary)) prev (x # xs) =
     (if \<not> (case prev of None \<Rightarrow> False | Some p \<Rightarrow> is_word_rune p) \<and> is_word_rune x
      then Some (dropWhile is_word_rune xs, []) else None)"
proof (cases "\<not> (case prev of None \<Rightarrow> False | Some p \<Rightarrow> is_word_rune p) \<and> is_word_rune x")
  case False
  then show ?thesis
    by (auto simp: rx_match_def plus_def re_w_def at_word_boundary_def split: option.splits)
next
  case True
  let ?K = "\<lambda>prev' rest' c'. if length rest' \<le> length (x # xs)
              then rx WordBoundary prev' rest' c' (\<lambda>prev' rest' c'. Some (rest', c')) else None"
  let ?p = "if takeWhile is_word_rune xs = [] then Some x else Some (last (takeWhile is_word_rune xs))"
  have pw: "\<exists>p. ?p = Some p \<and> is_word_rune p"
  proof (cases "takeWhile is_word_rune xs = []")
    case True
    with \<open>\<not> _ \<and> is_word_rune x\<close> show ?thesis by simp
  next
    case False
    then have "last (takeWhile is_word_rune xs) \<in> set (takeWhile is_word_rune xs)" by simp
    then have "is_word_rune (last (takeWhile is_word_rune xs))" by (rule set_takeWhileD [THEN conjunct2])
    with False show ?thesis by simp
  qed
  have nw: "\<not> (case dropWhile is_word_rune xs of [] \<Rightarrow> False | y # ys \<Rightarrow> is_word_rune y)"
  proof (cases "dropWhile is_word_rune xs")
    case Nil
    then show ?thesis by (simp only: list.case simp_thms)
  next
    case (Cons a list)
    with dropWhile_head [OF Cons] show ?thesis by (simp only: list.case simp_thms)
  qed
  from pw nw have "at_word_boundary ?p (dropWhile is_word_rune xs)"
    by (auto simp: at_word_boundary_def)
  moreover have "length (dropWhile is_word_rune xs) \<le> length (x # xs)"
    using length_dropWhile_le [of is_word_rune xs] by simp
  ultimately have "?K ?p (dropWhile is_word_rune xs) [] = Some (dropWhile is_word_rune xs, [])"
    by simp
  then have star: "rx (Star (Cls is_word_rune)) (Some x) xs [] ?K = Some (dropWhile is_word_rune xs, [])"
    by (rule star_cls_greedy)
  from True have b: "at_word_boundary prev (x # xs)"
    by (auto simp: at_word_boundary_def split: option.splits)
  show ?thesis
    using True b star by (simp add: rx_match_def plus_def re_w_def)
qed

lemma count_runs_dropWhile: "count_runs Q True xs = count_runs Q True (dropWhile Q xs)"
  by (induction xs) simp_all

lemma count_runs_after_run:
  "count_runs Q True (dropWhile Q xs) = count_runs Q False (dropWhile Q xs)"
proof (cases "dropWhile Q xs")
  case Nil
  then show ?thesis by (simp only: count_runs.simps)
next
  case (Cons a list)
  with dropWhile_head [OF Cons] show ?thesis by (simp only: count_runs.simps if_False)
qed

lemma take_run: "take (Suc (length xs) - length (dropWhile Q xs)) (x # xs) = x # takeWhile Q xs"
proof -
  have "length (takeWhile Q xs @ dropWhile Q xs) = length (takeWhile Q xs) + length (dropWhile Q xs)"
    by (rule length_append)
  then have "length xs = length (takeWhile Q xs) + length (dropWhile Q xs)"
    by (simp only: takeWhile_dropWhile_id)
  then have "Suc (length xs) - length (dropWhile Q xs) = Suc (length (takeWhile Q xs))" by simp
  then have "take (Suc (length xs) - length (dropWhile Q xs)) (x # xs)
      = x # take (length (takeWhile Q xs)) xs" by simp
  also have "take (length (takeWhile Q xs)) xs = takeWhile Q xs"
    by (rule takeWhile_eq_take [symmetric])
  finally show ?thesis .
qed

lemma find_from_words:
  "length (find_from (Seq WordBoundary (Seq (plus re_w) WordBoundary)) prev s) =
     count_runs is_word_rune (case prev of None \<Rightarrow> False | Some p \<Rightarrow> is_word_rune p) s"
proof (induction s arbitrary: prev rule: length_induct)
  case (1 s)
  let ?r = "Seq WordBoundary (Seq (plus re_w) WordBoundary)"
  show ?case
  proof (cases s)
    case Nil
    then show ?thesis by simp
  next
    case (Cons x xs)
    show ?thesis
    proof (cases "\<not> (case prev of None \<Rightarrow> False | Some p \<Rightarrow> is_word_rune p) \<and> is_word_rune x")
      case True
      let ?m = "x # takeWhile is_word_rune xs"
      have lt: "length (dropWhile is_word_rune xs) < length s"
        using length_dropWhile_le [of is_word_rune xs] Cons by simp
      have "last ?m \<in> set ?m" by simp
      then have lw: "is_word_rune (last ?m)"
        using True by (auto dest: set_takeWhileD)
      from 1 lt have "length (find_from ?r (Some (last ?m)) (dropWhile is_word_rune xs))
          = count_runs is_word_rune (is_word_rune (last ?m)) (dropWhile is_word_rune xs)"
        by simp
      with lw have ih: "length (find_from ?r (Some (last ?m)) (dropWhile is_word_rune xs))
          = count_runs is_word_rune True xs"
        by (simp add: count_runs_dropWhile [symmetric])
      from True have "rx_match ?r prev (x # xs) = Some (dropWhile is_word_rune xs, [])"
        by (simp add: word_match)
      then have "find_from ?r prev (x # xs) = ?m # find_from ?r (Some (last ?m)) (dropWhile is_word_rune xs)"
        using lt Cons by (simp add: take_run)
      with ih True Cons show ?thesis by simp
    next
      case False
      from 1 Cons have ih: "length (find_from ?r (Some x) xs) = count_runs is_word_rune (is_word_rune x) xs"
        by simp
      from False have "rx_match ?r prev (x # xs) = None"
        by (auto simp: word_match)
      then have "find_from ?r prev (x # xs) = find_from ?r (Some x) xs"
        by simp
      with ih False Cons show ?thesis by (auto split: option.splits)
    qed
  qed
qed

lemma wordCount_ascii_words: "wordCount s = ascii_words s"
  by (simp add: wordCount_def FindAllString_def ascii_words_def find_from_words)

lemma short_fragment_iff: "short_fragment s = short_by_ascii_words s"
  by (simp add: short_fragment_def short_by_ascii_words_def wordCount_ascii_words)

lemma como_estas_counts:
  "ascii_words como_estas = 4" "letter_words como_estas = 2" "length como_estas = 12"
  "len como_estas = 15"
  by (simp_all add: ascii_words_def letter_words_def como_estas_def str_def is_word_rune_def
        is_letter_def len_def utf8_len_def)

subsection \<open>Merging short fragments\<close>

lemma merge_loop_short_prev:
  "short_fragment s \<Longrightarrow> merged \<noteq> [] \<Longrightarrow>
   merge_loop merged (s # rest) = merge_loop (butlast merged @ [last merged @ str '' '' @ s]) rest"
  by (simp add: short_fragment_def)

lemma merge_loop_short_next:
  "short_fragment s \<Longrightarrow> merge_loop [] (s # n # rest) = merge_loop [s @ str '' '' @ n] rest"
  by (simp add: short_fragment_def)

lemma merge_loop_short_alone: "short_fragment s \<Longrightarrow> merge_loop [] [s] = [s]"
  by (simp add: short_fragment_def)

lemma merge_loop_long:
  "\<not> short_fragment s \<Longrightarrow> merge_loop merged (s # rest) = merge_loop (merged @ [s]) rest"
  by (auto simp: short_fragment_def)

lemma merge_loop_all_long:
  "\<forall>x \<in> set ss. \<not> short_fragment x \<Longrightarrow> merge_loop merged ss = merged @ ss"
  by (induction ss arbitrary: merged) (simp_all add: merge_loop_long del: merge_loop.simps(2))

lemma merge_loop_trailing:
  "merged \<noteq> [] \<Longrightarrow> short_fragment f \<Longrightarrow>
   merge_loop merged (ss @ [f]) =
     butlast (merge_loop merged ss) @ [last (merge_loop merged ss) @ str '' '' @ f]"
proof (induction ss arbitrary: merged)
  case Nil
  then show ?case by (simp add: merge_loop_short_prev del: merge_loop.simps(2))
next
  case (Cons s ss)
  show ?case
  proof (cases "short_fragment s")
    case True
    have ne: "butlast merged @ [last merged @ str '' '' @ s] \<noteq> []" by simp
    from Cons.IH [OF ne Cons.prems(2)] show ?thesis
      using True Cons.prems(1) by (simp add: merge_loop_short_prev del: merge_loop.simps(2))
  next
    case False
    have ne: "merged @ [s] \<noteq> []" by simp
    from Cons.IH [OF ne Cons.prems(2)] show ?thesis
      using False by (simp add: merge_loop_long del: merge_loop.simps(2))
  qed
qed

lemma merge_trailing:
  assumes ss: "ss \<noteq> []" and f: "short_fragment f"
  shows "mergeShortFragments (ss @ [f]) =
     butlast (mergeShortFragments ss) @ [last (mergeShortFragments ss) @ str '' '' @ f]"
proof -
  from ss obtain s rest where s: "ss = s # rest" by (cases ss) auto
  show ?thesis
  proof (cases "short_fragment s")
    case False
    then show ?thesis
      unfolding mergeShortFragments_def s
      using merge_loop_trailing [of "[s]" f rest] f
      by (simp add: merge_loop_long del: merge_loop.simps(2))
  next
    case True
    show ?thesis
    proof (cases rest)
      case Nil
      then show ?thesis
        unfolding mergeShortFragments_def s
        using True by (simp add: merge_loop_short_next merge_loop_short_alone del: merge_loop.simps(2))
    next
      case (Cons n rest')
      then show ?thesis
        unfolding mergeShortFragments_def s
        using merge_loop_trailing [of "[s @ str '' '' @ n]" f rest'] f True
        by (simp add: merge_loop_short_next del: merge_loop.simps(2))
    qed
  qed
qed

lemmas text_eval = seqs.simps alts.simps lit_def plus_def one_of_def none_of_def re_s_def re_w_def upper_es_def
  is_re_space_def is_word_rune_def at_word_boundary_def rx_match_def submatch_def
  ReplaceAllString_def ReplaceAllStringFunc_def ReplaceAll_def HasPrefix_def HasSuffix_def
  TrimPrefix_def TrimSuffix_def TrimSpace_def unicode_IsSpace_def str_def
  FindAllString_def MatchString_def Split_def len_def utf8_len_def

lemma wordCount_se_fue: "wordCount (str ''Se fue.'') = 2"
  by (simp add: wordCount_def text_eval)

lemma wordCount_long_example: "wordCount long_example = 7"
  by (simp add: wordCount_def text_eval long_example_def)

lemma long_example_not_short: "\<not> short_fragment long_example"
  by (simp add: short_fragment_def wordCount_long_example)

lemma como_estas_not_short: "\<not> short_fragment como_estas"
  by (simp add: short_fragment_def wordCount_ascii_words como_estas_counts)

text \<open>C8 as stated fails: after a longer sentence, the trailing fragment
  \<^verbatim>\<open>Como estas?\<close> in Spanish spelling has 2 words and 12 characters, fewer than 4 words
  and fewer than 30 characters, yet it is not merged into the preceding sentence:
  mergeShortFragments emits it on its own. Its accented letters are no word runes, so the
  code counts 4 words in it.\<close>

theorem accented_trailing_fragment_stands_alone:
  "letter_words como_estas = 2 \<and> length como_estas = 12
   \<and> wordCount como_estas = 4
   \<and> mergeShortFragments [long_example, como_estas] = [long_example, como_estas]
   \<and> mergeShortFragments [long_example, como_estas] \<noteq> [long_example @ str '' '' @ como_estas]"
proof -
  have "merge_loop [] [long_example, como_estas] = [long_example, como_estas]"
    using merge_loop_all_long [of "[long_example, como_estas]" "[]"]
      long_example_not_short como_estas_not_short
    by simp
  then show ?thesis
    by (simp add: mergeShortFragments_def wordCount_ascii_words como_estas_counts)
qed

text \<open>C8 amended: mergeShortFragments treats as a short fragment a sentence with fewer than
  4 ASCII words, an ASCII word being a maximal run of ASCII letters, digits and
  underscores (so that an accented letter ends a word and is itself no part of one), and
  fewer than 30 bytes in UTF-8. A short fragment is appended, after a space, to the last
  output sentence when there is one; otherwise it is joined with the next input sentence,
  which is consumed; otherwise, being the only sentence, it is kept. Any other sentence is
  appended to the output unchanged; a list without short fragments is returned as it is.
  In particular a short trailing fragment (such as one of two ASCII words and fewer than
  30 bytes) after at least one sentence is merged into the last output sentence and not
  emitted on its own.\<close>

theorem merge_short_fragments_cases:
  "(short_by_ascii_words s \<and> merged \<noteq> [] \<longrightarrow>
      merge_loop merged (s # rest) = merge_loop (butlast merged @ [last merged @ str '' '' @ s]) rest)
   \<and> (short_by_ascii_words s \<longrightarrow>
      mergeShortFragments (s # n # rest) = merge_loop [s @ str '' '' @ n] rest)
   \<and> (short_by_ascii_words s \<longrightarrow> mergeShortFragments [s] = [s])
   \<and> (\<not> short_by_ascii_words s \<longrightarrow> merge_loop merged (s # rest) = merge_loop (merged @ [s]) rest)
   \<and> ((\<forall>x \<in> set ss. \<not> short_by_ascii_words x) \<longrightarrow> mergeShortFragments ss = ss)
   \<and> (ss \<noteq> [] \<and> short_by_ascii_words f \<longrightarrow>
      mergeShortFragments (ss @ [f]) =
        butlast (mergeShortFragments ss) @ [last (mergeShortFragments ss) @ str '' '' @ f])"
  unfolding short_fragment_iff [symmetric]
  using merge_loop_short_prev [of s merged rest] merge_loop_short_next [of s n rest]
    merge_loop_short_alone [of s] merge_loop_long [of s merged rest]
    merge_loop_all_long [of ss "[]"] merge_trailing [of ss f]
  unfolding mergeShortFragments_def [symmetric]
  by (simp add: mergeShortFragments_def)

theorem merge_short_fragments_cases_witness:
  "short_by_ascii_words (str ''Se fue.'') \<and> \<not> short_by_ascii_words long_example
   \<and> ascii_words (str ''Se fue.'') = 2 \<and> ascii_words long_example = 7
   \<and> mergeShortFragments [long_example, str ''Se fue.''] = [long_example @ str '' Se fue.'']
   \<and> mergeShortFragments [str ''Se fue.'', long_example] = [str ''Se fue. '' @ long_example]
   \<and> mergeShortFragments [str ''Se fue.''] = [str ''Se fue.'']
   \<and> mergeShortFragments [long_example, long_example] = [long_example, long_example]"
proof -
  have counts: "ascii_words (str ''Se fue.'') = 2" "ascii_words long_example = 7"
    by (simp_all add: ascii_words_def long_example_def str_def is_word_rune_def)
  have short: "short_by_ascii_words (str ''Se fue.'')"
    by (simp add: short_by_ascii_words_def counts) (simp add: len_def utf8_len_def str_def)
  have long: "\<not> short_by_ascii_words long_example"
    by (simp add: short_by_ascii_words_def counts)
  have one: "mergeShortFragments [long_example] = [long_example]"
    using merge_short_fragments_cases [of "[]" "[]" "[]" "[]" "[long_example]" "[]"] long
    by simp
  have two: "mergeShortFragments [long_example, long_example] = [long_example, long_example]"
    using merge_short_fragments_cases [of "[]" "[]" "[]" "[]" "[long_example, long_example]" "[]"] long
    by simp
  have trailing: "mergeShortFragments ([long_example] @ [str ''Se fue.''])
      = butlast (mergeShortFragments [long_example])
          @ [last (mergeShortFragments [long_example]) @ str '' '' @ str ''Se fue.'']"
    using merge_short_fragments_cases [of "[]" "[]" "[]" "[]" "[long_example]" "str ''Se fue.''"] short
    by blast
  have leading: "mergeShortFragments [str ''Se fue.'', long_example] = merge_loop [str ''Se fue.'' @ str '' '' @ long_example] []"
    using merge_short_fragments_cases [of "str ''Se fue.''" "[]" "[]" long_example "[]" "[]"] short
    by blast
  have alone: "mergeShortFragments [str ''Se fue.''] = [str ''Se fue.'']"
    using merge_short_fragments_cases [of "str ''Se fue.''" "[]" "[]" long_example "[]" "[]"] short
    by blast
  from counts short long one two trailing leading alone show ?thesis
    by (simp add: str_def)
qed

subsection \<open>The scanning loop of splitSentences\<close>

lemma scan_state_before:
  "i \<le> length runes \<Longrightarrow>
   scan up (state_before up runes i) (drop i runes) = scan up ([], []) runes"
proof (induction i)
  case 0
  then show ?case by simp
next
  case (Suc i)
  then have i: "i < length runes" by simp
  then have "drop i runes = runes ! i # drop (Suc i) runes"
    by (simp add: Cons_nth_drop_Suc)
  with Suc show ?case by simp
qed

lemma scan_is_state_at_end: "scan up ([], []) runes = state_before up runes (length runes)"
  using scan_state_before [of "length runes" runes up] by simp

lemma scan_step_not_mark:
  "\<not> is_terminal_mark r \<Longrightarrow> scan_step up (sentences, buffer) r rest = (sentences, buffer @ [r])"
  by (simp add: scan_step_def)

lemma scan_step_mark_end:
  "is_terminal_mark r \<Longrightarrow>
   scan_step up (sentences, buffer) r [] =
     (if len (TrimSpace (buffer @ [r])) > 3 then sentences @ [TrimSpace (buffer @ [r])] else sentences, [])"
  by (simp add: scan_step_def Let_def)

lemma scan_step_mark_inner:
  "is_terminal_mark r \<Longrightarrow> rest \<noteq> [] \<Longrightarrow>
   scan_step up (sentences, buffer) r rest =
     (if boundary_after up (TrimSpace (buffer @ [r])) rest
      then (if len (TrimSpace (buffer @ [r])) > 3 then sentences @ [TrimSpace (buffer @ [r])] else sentences, [])
      else (sentences, buffer @ [r]))"
proof (cases "dropWhile unicode_IsSpace rest")
  case Nil
  assume "is_terminal_mark r" "rest \<noteq> []"
  with Nil show ?thesis
    by (simp add: scan_step_def Let_def boundary_after_def next_meaningful_def del: dropWhile_eq_Nil_conv)
next
  case (Cons nxt after)
  assume "is_terminal_mark r" "rest \<noteq> []"
  with Cons show ?thesis
    by (simp add: scan_step_def Let_def boundary_after_def next_meaningful_def)
qed

text \<open>C7 amended: during the scan of any text, at any position \<open>i\<close>. If the rune there is
  \<^verbatim>\<open>.\<close>, \<^verbatim>\<open>!\<close> or \<^verbatim>\<open>?\<close> and it is not the last rune, the buffer is closed (reset to
  empty) if and only if a non-space rune follows and either it is upper case and the
  trimmed buffer, the mark included, is longer than 10 bytes in UTF-8 (Go's \<^verbatim>\<open>len\<close>,
  not its number of characters), or it is an inverted question or exclamation mark
  (U+00BF, U+00A1). A mark at the last position always closes
  the buffer; a rune that is not a mark never does. Closing appends the trimmed buffer to
  the sentences when it is longer than 3, and what remains in the buffer at the end of the
  text is emitted under the same test.\<close>

theorem terminal_mark_boundary:
  assumes i: "i < length runes"
  shows "(is_terminal_mark (runes ! i) \<and> Suc i < length runes \<longrightarrow>
           (snd (state_before up runes (Suc i)) = [] \<longleftrightarrow>
              boundary_after up (TrimSpace (snd (state_before up runes i) @ [runes ! i]))
                (drop (Suc i) runes)))
       \<and> (is_terminal_mark (runes ! i) \<and> Suc i = length runes \<longrightarrow>
           snd (state_before up runes (Suc i)) = [])
       \<and> (\<not> is_terminal_mark (runes ! i) \<longrightarrow> snd (state_before up runes (Suc i)) \<noteq> [])
       \<and> (snd (state_before up runes (Suc i)) = [] \<longrightarrow>
           fst (state_before up runes (Suc i)) =
             (if len (TrimSpace (snd (state_before up runes i) @ [runes ! i])) > 3
              then fst (state_before up runes i) @ [TrimSpace (snd (state_before up runes i) @ [runes ! i])]
              else fst (state_before up runes i)))
       \<and> (snd (state_before up runes (Suc i)) \<noteq> [] \<longrightarrow>
           state_before up runes (Suc i)
             = (fst (state_before up runes i), snd (state_before up runes i) @ [runes ! i]))
       \<and> scan_sentences up runes =
           (if len (TrimSpace (snd (state_before up runes (length runes)))) > 3
            then fst (state_before up runes (length runes))
                   @ [TrimSpace (snd (state_before up runes (length runes)))]
            else fst (state_before up runes (length runes)))"
proof -
  obtain sentences buffer where st: "state_before up runes i = (sentences, buffer)"
    by (cases "state_before up runes i")
  let ?r = "runes ! i" and ?rest = "drop (Suc i) runes"
  have step: "state_before up runes (Suc i) = scan_step up (sentences, buffer) ?r ?rest"
    by (simp add: st)
  have rest: "?rest \<noteq> [] \<longleftrightarrow> Suc i < length runes" by auto
  have final: "scan_sentences up runes =
           (if len (TrimSpace (snd (state_before up runes (length runes)))) > 3
            then fst (state_before up runes (length runes))
                   @ [TrimSpace (snd (state_before up runes (length runes)))]
            else fst (state_before up runes (length runes)))"
    by (simp add: scan_sentences_def scan_is_state_at_end split_beta)
  show ?thesis
  proof (cases "is_terminal_mark ?r")
    case False
    with step have "state_before up runes (Suc i) = (sentences, buffer @ [?r])"
      by (simp add: scan_step_not_mark)
    with False st final show ?thesis by simp
  next
    case True
    show ?thesis
    proof (cases "Suc i < length runes")
      case inner: True
      with rest have "?rest \<noteq> []" by simp
      from scan_step_mark_inner [OF True this, of up sentences buffer] step
      have "state_before up runes (Suc i) =
        (if boundary_after up (TrimSpace (buffer @ [?r])) ?rest
         then (if len (TrimSpace (buffer @ [?r])) > 3 then sentences @ [TrimSpace (buffer @ [?r])] else sentences, [])
         else (sentences, buffer @ [?r]))" by simp
      with True inner st final show ?thesis by simp
    next
      case False
      with i have last: "Suc i = length runes" by simp
      then have "?rest = []" by simp
      with scan_step_mark_end [OF True, of up sentences buffer] step
      have "state_before up runes (Suc i) =
        (if len (TrimSpace (buffer @ [?r])) > 3 then sentences @ [TrimSpace (buffer @ [?r])] else sentences, [])"
        by simp
      with True last st final show ?thesis by simp
    qed
  qed
qed

lemmas scan_eval = scan_step_def is_terminal_mark_def unicode_IsSpace_def unicode_IsUpper_def
  TrimSpace_def len_def utf8_len_def str_def Let_def no_upper_beyond_latin1_def

lemma hello_bye_11:
  "state_before no_upper_beyond_latin1 hello_bye 11 = ([], str ''Hello world'')"
  by (simp add: hello_bye_def eval_nat_numeral scan_eval)

lemma hello_bye_17:
  "state_before no_upper_beyond_latin1 hello_bye 17 = ([str ''Hello world.'', str ''Bye.''], [])"
  by (simp add: hello_bye_def eval_nat_numeral scan_eval)

theorem terminal_mark_boundary_witness:
  "is_terminal_mark (hello_bye ! 11)
   \<and> boundary_after no_upper_beyond_latin1 (str ''Hello world.'') (str '' Bye.'')
   \<and> snd (state_before no_upper_beyond_latin1 hello_bye 12) = []
   \<and> fst (state_before no_upper_beyond_latin1 hello_bye 12) = [str ''Hello world.'']
   \<and> scan_sentences no_upper_beyond_latin1 hello_bye = [str ''Hello world.'', str ''Bye.'']"
proof -
  have i: "11 < length hello_bye" by (simp add: hello_bye_def str_def)
  have mark: "is_terminal_mark (hello_bye ! 11)"
    by (simp add: hello_bye_def str_def is_terminal_mark_def)
  have inner: "Suc 11 < length hello_bye" by (simp add: hello_bye_def str_def)
  have cur: "TrimSpace (snd (state_before no_upper_beyond_latin1 hello_bye 11) @ [hello_bye ! 11])
      = str ''Hello world.''"
    by (simp add: hello_bye_11) (simp add: hello_bye_def str_def TrimSpace_def unicode_IsSpace_def)
  have rest: "drop (Suc 11) hello_bye = str '' Bye.''"
    by (simp add: hello_bye_def str_def)
  have b: "boundary_after no_upper_beyond_latin1 (str ''Hello world.'') (str '' Bye.'')"
    by (simp add: boundary_after_def next_meaningful_def scan_eval)
  have len3: "len (str ''Hello world.'') > 3" by (simp add: len_def utf8_len_def str_def)
  note T = terminal_mark_boundary [OF i, of no_upper_beyond_latin1, unfolded cur rest]
  from T mark inner b have closes: "snd (state_before no_upper_beyond_latin1 hello_bye (Suc 11)) = []"
    by blast
  with T len3 have "fst (state_before no_upper_beyond_latin1 hello_bye (Suc 11))
      = fst (state_before no_upper_beyond_latin1 hello_bye 11) @ [str ''Hello world.'']"
    by presburger
  then have sents: "fst (state_before no_upper_beyond_latin1 hello_bye (Suc 11)) = [str ''Hello world.'']"
    by (simp add: hello_bye_11)
  have len17: "length hello_bye = 17" by (simp add: hello_bye_def str_def)
  from T have "scan_sentences no_upper_beyond_latin1 hello_bye =
           (if len (TrimSpace (snd (state_before no_upper_beyond_latin1 hello_bye (length hello_bye)))) > 3
            then fst (state_before no_upper_beyond_latin1 hello_bye (length hello_bye))
                   @ [TrimSpace (snd (state_before no_upper_beyond_latin1 hello_bye (length hello_bye)))]
            else fst (state_before no_upper_beyond_latin1 hello_bye (length hello_bye)))"
    by blast
  then have final: "scan_sentences no_upper_beyond_latin1 hello_bye = [str ''Hello world.'', str ''Bye.'']"
    unfolding len17 hello_bye_17 by (simp add: TrimSpace_def len_def)
  have "Suc 11 = (12::nat)" by simp
  with mark b closes sents final show ?thesis by simp
qed

subsection \<open>Scanning, replacement and restoring\<close>


lemma find_from_no_match:
  "(\<And>prev x xs. x \<in> set s \<Longrightarrow> rx_match r prev (x # xs) = None) \<Longrightarrow>
   find_from r prev s = []"
  by (induction s arbitrary: prev) simp_all




lemma HasPrefix_hd: "old \<noteq> [] \<Longrightarrow> HasPrefix (x # xs) old \<Longrightarrow> hd old = x"
  by (cases old) (simp_all add: HasPrefix_def)

lemma Contains_hd: "old \<noteq> [] \<Longrightarrow> hd old \<notin> set s \<Longrightarrow> \<not> Contains s old"
  by (induction s) (auto dest: HasPrefix_hd)

lemma replace_scan_absent: "\<not> Contains s old \<Longrightarrow> replace_scan old new s = s"
  by (induction s) simp_all

lemma ReplaceAll_absent: "old \<noteq> [] \<Longrightarrow> \<not> Contains s old \<Longrightarrow> ReplaceAll s old new = s"
  by (simp add: ReplaceAll_def replace_scan_absent)

lemma restore_Cons: "restore ((p, a) # ys) s = restore ys (ReplaceAll s p a)"
  by (simp add: restore_def)

lemma restore_absent:
  "(\<And>p a. (p, a) \<in> set entries \<Longrightarrow> p \<noteq> [] \<and> \<not> Contains s p) \<Longrightarrow> restore entries s = s"
proof (induction entries)
  case Nil
  then show ?case by (simp add: restore_def)
next
  case (Cons e entries)
  obtain p a where e: "e = (p, a)" by (cases e)
  with Cons.prems [of p a] have "ReplaceAll s p a = s" by (simp add: ReplaceAll_absent)
  moreover have "restore entries s = s"
  proof (rule Cons.IH)
    fix q b assume "(q, b) \<in> set entries"
    then have "(q, b) \<in> set (e # entries)" by simp
    then show "q \<noteq> [] \<and> \<not> Contains s q" by (rule Cons.prems)
  qed
  ultimately show ?case by (simp add: e restore_Cons)
qed

lemma restore_append: "restore (xs @ ys) s = restore ys (restore xs s)"
  by (simp add: restore_def)

lemma placeholder_hd: "placeholder i \<noteq> [] \<and> hd (placeholder i) = 95"
  by (simp add: placeholder_def str_def)

lemma protectionMap_entry:
  "(p, a) \<in> set protectionMap \<Longrightarrow> \<exists>i < length abbreviations. p = placeholder i \<and> a = abbreviations ! i"
  by (auto simp: protectionMap_def)

lemma restore_without_underscore:
  assumes "set entries \<subseteq> set protectionMap" and "95 \<notin> set s"
  shows "restore entries s = s"
proof (rule restore_absent)
  fix p a assume "(p, a) \<in> set entries"
  with assms(1) obtain i where "p = placeholder i" using protectionMap_entry by blast
  with assms(2) show "p \<noteq> [] \<and> \<not> Contains s p"
    using placeholder_hd [of i] Contains_hd [of p s] by simp
qed

lemma enhance_unchanged:
  assumes "ReplaceAllString (plus (one_of [13, 10, 9])) s (\<lambda>c. str '' '') = s"
    and "ReplaceAllString (plus re_s) s (\<lambda>c. str '' '') = s"
    and "TrimSpace s = s" and "s \<noteq> []"
    and "MatchString (seqs [one_of (str ''.!?'' @ [0x2026]), EndText]) s"
    and "\<not> HasSuffix s (str ''?'')" and "\<not> HasSuffix s (str ''!'')"
    and "ReplaceAllString (seqs [lit iquest, plus (lit iquest)]) s (\<lambda>c. [iquest]) = s"
    and "ReplaceAllString (seqs [lit iexcl, plus (lit iexcl)]) s (\<lambda>c. [iexcl]) = s"
    and "ReplaceAllString (seqs [lit 63, plus (lit 63)]) s (\<lambda>c. str ''?'') = s"
    and "ReplaceAllString (seqs [lit 33, plus (lit 33)]) s (\<lambda>c. str ''!'') = s"
  shows "enhanceSentenceForTTS s = s"
  by (simp only: enhanceSentenceForTTS_def Let_def assms if_False if_True not_True_eq_False simp_thms)

subsection \<open>Byte lengths\<close>

lemma len_append [simp]: "len (a @ b) = len a + len b"
  by (simp add: len_def)


subsection \<open>Splitting long sentences: concrete runs\<close>













lemma pero_split: "Split naturalBreaksPattern pero_example = [str ''aaa'', str '' bbb.'']"
  by (simp add: pero_example_def naturalBreaksPattern_def connectives_def lit_ci_def
      fold_matches_def text_eval)

lemma pero_pack: "pack_parts [] [] [str ''aaa'', str '' bbb.''] = ([], str ''aaa bbb.'')"
  by (simp add: len_def utf8_len_def str_def)

lemma pero_trim: "TrimSpace (str ''aaa bbb.'') = str ''aaa bbb.''"
  by (simp add: TrimSpace_def unicode_IsSpace_def str_def)

lemma pero_enhance: "enhanceSentenceForTTS (str ''aaa bbb.'') = str ''aaa bbb.''"
  by (rule enhance_unchanged) (simp_all add: text_eval)

lemma pero_example_eval: "splitLongSentence pero_example = [str ''aaa bbb.'']"
proof -
  have "str ''aaa bbb.'' \<noteq> []" by (simp add: str_def)
  then show ?thesis
    by (simp add: splitLongSentence_def Let_def pero_split pero_pack pero_trim pero_enhance
        del: pack_parts.simps)
qed

subsection \<open>Segmenting the abbreviation example\<close>

lemma dr_normalize: "normalizeTextForTTS dr_smith = dr_smith"
  by (simp add: normalizeTextForTTS_def text_eval dr_smith_def)

lemma dr_protect: "protect dr_smith = dr_protected @ str '' Se fue.''"
  by (simp add: protect_def abbreviations_def placeholder_def dr_smith_def dr_protected_def
      ReplaceAll_def HasPrefix_def str_def)

lemma dr_scan:
  "scan_sentences up (dr_protected @ str '' Se fue.'') = [dr_protected, se_fue]"
  by (simp add: scan_sentences_def dr_protected_def se_fue_def scan_step_def is_terminal_mark_def
      unicode_IsSpace_def unicode_IsUpper_def TrimSpace_def len_def utf8_len_def str_def Let_def)

lemma dr_others_absent_each:
  "list_all (\<lambda>p. \<not> Contains dr_protected p) (map placeholder ([0, 1, 2] @ [4..<35]))"
  by (simp add: upt_rec_numeral dr_protected_def placeholder_def HasPrefix_def str_def)

lemma dr_others_absent:
  assumes "i < 35" "i \<noteq> 3"
  shows "\<not> Contains dr_protected (placeholder i)"
proof -
  from assms have "i < 3 \<or> (4 \<le> i \<and> i < 35)" by arith
  then have "i \<in> set [0, 1, 2] \<or> i \<in> set [4..<35]"
  proof
    assume "i < 3"
    then have "i = 0 \<or> i = 1 \<or> i = 2" by arith
    then show ?thesis by auto
  next
    assume "4 \<le> i \<and> i < 35"
    then have "i \<in> set [4..<35]" by (simp only: set_upt atLeastLessThan_iff)
    then show ?thesis ..
  qed
  then have "i \<in> set ([0, 1, 2] @ [4..<35])" by (simp only: set_append Un_iff)
  then have "placeholder i \<in> placeholder ` set ([0, 1, 2] @ [4..<35])" by (rule imageI)
  then have "placeholder i \<in> set (map placeholder ([0, 1, 2] @ [4..<35]))"
    by (simp only: set_map)
  with dr_others_absent_each show ?thesis
    unfolding list_all_iff by blast
qed

lemma length_abbreviations: "length abbreviations = 35"
  by (simp add: abbreviations_def)

lemma abbreviation_3: "abbreviations ! 3 = str ''Dr.''"
  by (simp add: abbreviations_def)

lemma dr_restore_one: "ReplaceAll dr_protected (placeholder 3) (str ''Dr.'') = dr_sentence"
  by (simp add: dr_protected_def dr_sentence_def placeholder_def ReplaceAll_def HasPrefix_def str_def)

lemma dr_restore:
  assumes "set order = set protectionMap"
  shows "restore order dr_protected = dr_sentence"
proof -
  have "(placeholder 3, str ''Dr.'') \<in> set protectionMap"
    unfolding protectionMap_def using abbreviation_3 by (auto simp: length_abbreviations)
  with assms have "(placeholder 3, str ''Dr.'') \<in> set order" by simp
  then obtain xs ys where order: "order = xs @ (placeholder 3, str ''Dr.'') # ys"
    and first: "(placeholder 3, str ''Dr.'') \<notin> set xs"
    by (auto dest: split_list_first)
  have before: "restore xs dr_protected = dr_protected"
  proof (rule restore_absent)
    fix p a assume pa: "(p, a) \<in> set xs"
    with order assms have "(p, a) \<in> set protectionMap" by auto
    then obtain i where i: "i < 35" "p = placeholder i" "a = abbreviations ! i"
      using protectionMap_entry length_abbreviations by metis
    with pa first abbreviation_3 have "i \<noteq> 3" by auto
    with i(1) have "\<not> Contains dr_protected (placeholder i)"
      by (intro dr_others_absent)
    with i(2) show "p \<noteq> [] \<and> \<not> Contains dr_protected p"
      using placeholder_hd by simp
  qed
  have after: "restore ys dr_sentence = dr_sentence"
  proof (rule restore_without_underscore)
    show "set ys \<subseteq> set protectionMap" using order assms by auto
    show "95 \<notin> set dr_sentence" by (simp add: dr_sentence_def str_def)
  qed
  show ?thesis
    by (simp add: order restore_append restore_Cons before dr_restore_one after)
qed

lemma se_fue_restore:
  assumes "set order = set protectionMap"
  shows "restore order se_fue = se_fue"
  by (rule restore_without_underscore) (simp_all add: assms se_fue_def str_def)

lemma dr_enhance: "enhanceSentenceForTTS dr_sentence = dr_sentence"
  by (rule enhance_unchanged) (simp_all add: dr_sentence_def text_eval)

lemma se_fue_enhance: "enhanceSentenceForTTS se_fue = se_fue"
  by (rule enhance_unchanged) (simp_all add: se_fue_def text_eval)

lemma dr_lens: "len dr_sentence = 17" "len se_fue = 7"
  by (simp_all add: dr_sentence_def se_fue_def len_def utf8_len_def str_def)

lemma dr_wordCount: "wordCount dr_sentence = 3"
  by (simp add: wordCount_def dr_sentence_def text_eval)

lemma dr_process:
  assumes "\<forall>i. set (visit i) = set protectionMap"
  shows "process_sentences visit 0 [] [dr_protected, se_fue] = [dr_sentence, se_fue]"
  using assms
  by (simp add: Let_def dr_restore se_fue_restore dr_enhance se_fue_enhance dr_lens)

lemma dr_merge: "mergeShortFragments [dr_sentence, se_fue] = [dr_smith]"
proof -
  have "dr_sentence @ str '' '' @ se_fue = dr_smith"
    by (simp add: dr_sentence_def se_fue_def dr_smith_def str_def)
  then show ?thesis
    by (simp add: mergeShortFragments_def dr_wordCount dr_lens)
qed

lemma dr_not_blank: "TrimSpace dr_smith \<noteq> []"
  by (simp add: TrimSpace_def dr_smith_def unicode_IsSpace_def str_def)

lemma dr_split:
  assumes "\<forall>i. set (visit i) = set protectionMap"
  shows "splitSentences up visit dr_smith = [dr_smith]"
  by (simp add: splitSentences_def Let_def dr_not_blank dr_normalize dr_protect dr_scan
      dr_process [OF assms] dr_merge del: process_sentences.simps)

lemma stored_order_visits: "\<forall>i. set (stored_order i) = set protectionMap"
  by (simp add: stored_order_def)

text \<open>C6 as stated fails: splitSentences returns one sentence for the example, the whole
  text, not two.\<close>

theorem dr_smith_is_one_sentence:
  "splitSentences no_upper_beyond_latin1 stored_order dr_smith = [dr_smith]
   \<and> length (splitSentences no_upper_beyond_latin1 stored_order dr_smith) \<noteq> 2"
  by (simp add: dr_split [OF stored_order_visits])

text \<open>C6 amended: for the example, whatever the upper-case table beyond Latin-1 and
  whatever the order in which the protection map is visited, the scan extracts exactly
  two sentences and does not split at the abbreviation (the first sentence carries its
  placeholder and is restored to the text up to the first full stop after Smith); the
  first sentence has 3 words and a length of 17, so it is a short fragment, and
  mergeShortFragments joins it with the second: splitSentences returns exactly one
  sentence, the whole text.\<close>

theorem dr_smith_segmentation:
  assumes "\<forall>i. set (visit i) = set protectionMap"
  shows "scan_sentences up (protect (normalizeTextForTTS dr_smith)) = [dr_protected, se_fue]
       \<and> process_sentences visit 0 [] [dr_protected, se_fue] = [dr_sentence, se_fue]
       \<and> short_fragment dr_sentence
       \<and> mergeShortFragments [dr_sentence, se_fue] = [dr_smith]
       \<and> splitSentences up visit dr_smith = [dr_smith]"
proof -
  have "short_fragment dr_sentence"
    by (simp add: short_fragment_def dr_wordCount dr_lens)
  then show ?thesis
    by (simp add: dr_normalize dr_protect dr_scan dr_process [OF assms] dr_merge dr_split [OF assms]
        del: process_sentences.simps)
qed

theorem dr_smith_segmentation_witness:
  "set (stored_order 0) = set protectionMap
   \<and> scan_sentences no_upper_beyond_latin1 (protect (normalizeTextForTTS dr_smith))
        = [dr_protected, se_fue]
   \<and> process_sentences stored_order 0 [] [dr_protected, se_fue] = [dr_sentence, se_fue]
   \<and> splitSentences no_upper_beyond_latin1 stored_order dr_smith = [dr_smith]"
proof -
  have "set (stored_order 0) = set protectionMap" by (simp add: stored_order_def)
  with dr_smith_segmentation [OF stored_order_visits, of no_upper_beyond_latin1]
  show ?thesis by blast
qed

subsection \<open>The length guard of the scan counts bytes\<close>

lemma dee_luego_9:
  "state_before no_upper_beyond_latin1 dee_luego 9 = ([], str ''a b c d'' @ [0xE9, 0xE9])"
  by (simp add: dee_luego_def dee_def eval_nat_numeral scan_eval)

lemma dee_luego_10:
  "state_before no_upper_beyond_latin1 dee_luego 10 = ([dee], [])"
  by (simp add: dee_luego_def dee_def eval_nat_numeral scan_eval)

text \<open>C7 as stated fails: in the text \<^verbatim>\<open>a b c dee. Luego\<close> (with e acute twice) the period
  at position 9 is not at the end of the text, the next non-space rune is the upper-case
  letter L, and the trimmed buffer with the period has exactly 10 characters (and 12
  bytes), so the test of the claim, that the buffer be longer than 10 characters, fails;
  yet the scan closes the buffer there.\<close>

theorem ten_character_buffer_is_closed:
  "is_terminal_mark (dee_luego ! 9) \<and> Suc 9 < length dee_luego
   \<and> TrimSpace (snd (state_before no_upper_beyond_latin1 dee_luego 9) @ [dee_luego ! 9]) = dee
   \<and> length dee = 10 \<and> len dee = 12
   \<and> next_meaningful (drop (Suc 9) dee_luego) = Some 76
   \<and> unicode_IsUpper no_upper_beyond_latin1 76
   \<and> \<not> boundary_by_characters no_upper_beyond_latin1 dee (drop (Suc 9) dee_luego)
   \<and> snd (state_before no_upper_beyond_latin1 dee_luego (Suc 9)) = []
   \<and> fst (state_before no_upper_beyond_latin1 dee_luego (Suc 9)) = [dee]"
proof -
  have "Suc 9 = (10::nat)" by simp
  then have "state_before no_upper_beyond_latin1 dee_luego (Suc 9) = ([dee], [])"
    using dee_luego_10 by simp
  moreover have "TrimSpace (snd (state_before no_upper_beyond_latin1 dee_luego 9) @ [dee_luego ! 9]) = dee"
    by (simp add: dee_luego_9) (simp add: dee_luego_def dee_def str_def TrimSpace_def unicode_IsSpace_def)
  moreover have "is_terminal_mark (dee_luego ! 9)" "Suc 9 < length dee_luego"
    "length dee = 10" "len dee = 12"
    by (simp_all add: dee_luego_def dee_def str_def is_terminal_mark_def len_def utf8_len_def)
  moreover have "next_meaningful (drop (Suc 9) dee_luego) = Some 76"
    by (simp add: dee_luego_def dee_def str_def next_meaningful_def unicode_IsSpace_def)
  moreover have "unicode_IsUpper no_upper_beyond_latin1 76"
    by (simp add: unicode_IsUpper_def)
  moreover have "\<not> boundary_by_characters no_upper_beyond_latin1 dee (drop (Suc 9) dee_luego)"
    using \<open>next_meaningful (drop (Suc 9) dee_luego) = Some 76\<close> \<open>length dee = 10\<close>
    by (simp add: boundary_by_characters_def)
  ultimately show ?thesis by simp
qed

subsection \<open>Cutting and packing a long sentence\<close>























subsection \<open>Normalization of texts without punctuation\<close>































end
